theory Spec2Isabelle
  imports Complex_Main "HOL-Library.Sublist" "HOL-Library.AList"
begin

section \<open>Strings\<close>

text \<open>
  A Python \<open>str\<close> is a sequence of Unicode code points; it is modelled as a list of
  naturals. \<open>ustr\<close> embeds an ASCII literal.
\<close>

type_synonym str = "nat list"

definition ustr :: "string \<Rightarrow> str" where
  "ustr s = map of_char s"

text \<open>
  \<open>str.strip()\<close> without argument removes leading and trailing white space, that is the
  code points for which \<open>str.isspace\<close> holds.
\<close>

definition isspace :: "nat \<Rightarrow> bool" where
  "isspace c =
     ((9 \<le> c \<and> c \<le> 13) \<or> (28 \<le> c \<and> c \<le> 32) \<or> c = 133 \<or> c = 160 \<or> c = 5760 \<or>
      (8192 \<le> c \<and> c \<le> 8202) \<or> c = 8232 \<or> c = 8233 \<or> c = 8239 \<or> c = 8287 \<or>
      c = 12288)"

definition strip :: "str \<Rightarrow> str" where
  "strip s = rev (dropWhile isspace (rev (dropWhile isspace s)))"

section \<open>URL patterns\<close>

text \<open>
  The two patterns of the source use only literals, grouping, alternation and \<open>?\<close>.
  \<open>rx_match ic r s\<close> lists, in the order a backtracking matcher finds them, the rests of
  \<open>s\<close> after each way \<open>r\<close> can match a prefix of \<open>s\<close>; \<open>ic\<close> is the flag \<open>re.I\<close>.
\<close>

datatype rx = Eps | Lit nat | Seq rx rx | Alt rx rx | Opt rx

fun lits :: "string \<Rightarrow> rx" where
  "lits [] = Eps"
| "lits (c # cs) = Seq (Lit (of_char c)) (lits cs)"

text \<open>
  Case-insensitive comparison of a code point of the text with an ASCII literal of the
  pattern: besides the 26 capital letters, \<open>re.I\<close> folds U+0130 and U+0131 onto \<open>i\<close>,
  U+017F onto \<open>s\<close> and U+212A onto \<open>k\<close>.
\<close>

definition casefold :: "nat \<Rightarrow> nat" where
  "casefold c =
     (if 65 \<le> c \<and> c \<le> 90 then c + 32
      else if c = 304 \<or> c = 305 then 105
      else if c = 383 then 115
      else if c = 8490 then 107
      else c)"

definition lit_match :: "bool \<Rightarrow> nat \<Rightarrow> nat \<Rightarrow> bool" where
  "lit_match ic p c = (if ic then casefold p = casefold c else p = c)"

fun rx_match :: "bool \<Rightarrow> rx \<Rightarrow> str \<Rightarrow> str list" where
  "rx_match ic Eps s = [s]"
| "rx_match ic (Lit p) [] = []"
| "rx_match ic (Lit p) (c # cs) = (if lit_match ic p c then [cs] else [])"
| "rx_match ic (Seq r1 r2) s = concat (map (rx_match ic r2) (rx_match ic r1 s))"
| "rx_match ic (Alt r1 r2) s = rx_match ic r1 s @ rx_match ic r2 s"
| "rx_match ic (Opt r) s = rx_match ic r s @ [s]"

datatype pattern = Pattern rx bool

text \<open>\<open>Pattern.search\<close>, read as a truth value: is there a match at some position?\<close>

fun re_search_from :: "bool \<Rightarrow> rx \<Rightarrow> str \<Rightarrow> bool" where
  "re_search_from ic r [] = (rx_match ic r [] \<noteq> [])"
| "re_search_from ic r (c # cs) = (rx_match ic r (c # cs) \<noteq> [] \<or> re_search_from ic r cs)"

fun re_search :: "pattern \<Rightarrow> str \<Rightarrow> bool" where
  "re_search (Pattern r ic) s = re_search_from ic r s"

definition scheme_www :: rx where
  "scheme_www =
     Seq (Opt (Seq (lits ''http'') (Seq (Opt (lits ''s'')) (lits ''://''))))
         (Opt (lits ''www.''))"

definition YOUTUBE_RE :: pattern where
  "YOUTUBE_RE = Pattern
     (Seq scheme_www
        (Alt (Seq (lits ''youtube.com/'') (Alt (lits ''watch?v='') (lits ''shorts/'')))
             (lits ''youtu.be/'')))
     True"

definition INSTAGRAM_RE :: pattern where
  "INSTAGRAM_RE = Pattern
     (Seq scheme_www
        (Seq (lits ''instagram.com/'')
           (Seq (Alt (lits ''reel'') (Alt (lits ''p'') (lits ''tv''))) (lits ''/''))))
     True"

definition is_supported_url :: "str \<Rightarrow> bool" where
  "is_supported_url url = (re_search YOUTUBE_RE url \<or> re_search INSTAGRAM_RE url)"

definition platform_name :: "str \<Rightarrow> str" where
  "platform_name url =
     (if re_search YOUTUBE_RE url then ustr ''YouTube''
      else if re_search INSTAGRAM_RE url then ustr ''Instagram''
      else ustr ''Unknown'')"

section \<open>Sizes\<close>

text \<open>
  \<open>human_mb\<close> is \<open>round(bytes_ / (1024 * 1024), 2)\<close>. Python rounds the quotient to the
  nearest multiple of 0.01, ties to the even hundredth, and returns the double nearest
  to that decimal. The source only compares the result with the integers 50, 1900 and
  2000, and conversion to a double is monotone and leaves these integers alone, so the
  comparisons come out as on the exact decimal, which is the value kept here.
\<close>

definition round_half_even :: "int \<Rightarrow> int \<Rightarrow> int" where
  "round_half_even n d =
     (let q = n div d; r = n mod d
      in if 2 * r < d then q
         else if d < 2 * r then q + 1
         else if even q then q else q + 1)"

definition human_mb :: "int \<Rightarrow> rat" where
  "human_mb bytes = of_int (round_half_even (bytes * 100) (1024 * 1024)) / 100"

definition MAX_HEIGHT_TARGET :: int where "MAX_HEIGHT_TARGET = 480"
definition TELEGRAM_LIMIT_MB :: int where "TELEGRAM_LIMIT_MB = 2000"
definition SAFE_LIMIT_MB :: int where "SAFE_LIMIT_MB = 1900"
definition SEND_AS_VIDEO_THRESHOLD_MB :: int where "SEND_AS_VIDEO_THRESHOLD_MB = 50"

text \<open>\<open>str(n)\<close> for an integer, as the f-strings of the source format it.\<close>

fun str_nat :: "nat \<Rightarrow> str" where
  "str_nat n = (if n < 10 then [48 + n] else str_nat (n div 10) @ [48 + n mod 10])"

declare str_nat.simps [simp del]

definition str_int :: "int \<Rightarrow> str" where
  "str_int i = (if i < 0 then 45 # str_nat (nat (- i)) else str_nat (nat i))"

section \<open>Paths\<close>

text \<open>
  A \<open>pathlib.Path\<close> (POSIX flavour) is its root and its list of components.
  \<open>Path\<close> parses a string, \<open>path_str\<close> is \<open>str(p)\<close>, \<open>joinpath\<close> is \<open>p / s\<close>.
\<close>

record path =
  anchor :: str
  parts :: "str list"

fun split_sep :: "nat \<Rightarrow> str \<Rightarrow> str list" where
  "split_sep sep [] = [[]]"
| "split_sep sep (c # cs) =
     (if c = sep then [] # split_sep sep cs
      else (case split_sep sep cs of [] \<Rightarrow> [[c]] | x # xs \<Rightarrow> (c # x) # xs))"

definition Path :: "str \<Rightarrow> path" where
  "Path s =
     \<lparr> anchor =
         (if take 2 s = ustr ''//'' \<and> take 3 s \<noteq> ustr ''///'' then ustr ''//''
          else if take 1 s = ustr ''/'' then ustr ''/''
          else []),
       parts = filter (\<lambda>x. x \<noteq> [] \<and> x \<noteq> ustr ''.'') (split_sep 47 s) \<rparr>"

fun join_sep :: "str list \<Rightarrow> str" where
  "join_sep [] = []"
| "join_sep [x] = x"
| "join_sep (x # y # ys) = x @ 47 # join_sep (y # ys)"

definition path_str :: "path \<Rightarrow> str" where
  "path_str p =
     (if anchor p = [] \<and> parts p = [] then ustr ''.'' else anchor p @ join_sep (parts p))"

definition joinpath :: "path \<Rightarrow> str \<Rightarrow> path" where
  "joinpath p s =
     (let q = Path s in if anchor q \<noteq> [] then q else p\<lparr>parts := parts p @ parts q\<rparr>)"

definition path_name :: "path \<Rightarrow> str" where
  "path_name p = (if parts p = [] then [] else last (parts p))"

text \<open>
  \<open>PurePath.suffix\<close>: the part of the name from its last dot on, if that dot is neither
  the first nor the last character of the name.
\<close>

definition name_suffix :: "str \<Rightarrow> str" where
  "name_suffix nm =
     (let ext = rev (takeWhile (\<lambda>c. c \<noteq> 46) (rev nm))
      in if 46 \<in> set nm \<and> length ext + 1 < length nm \<and> ext \<noteq> [] then 46 # ext else [])"

datatype exn = RuntimeError str | FileNotFoundError str | ValueError str | Raised str

fun exn_str :: "exn \<Rightarrow> str" where
  "exn_str (RuntimeError m) = m"
| "exn_str (FileNotFoundError m) = m"
| "exn_str (ValueError m) = m"
| "exn_str (Raised m) = m"

text \<open>
  \<open>PurePath.with_suffix\<close>: a suffix holding a separator, not starting with a dot or
  being a lone dot is refused, and so is a path with an empty name.
\<close>

definition with_suffix :: "path \<Rightarrow> str \<Rightarrow> exn + path" where
  "with_suffix p sfx =
     (if 47 \<in> set sfx then Inl (ValueError (ustr ''Invalid suffix''))
      else if (sfx \<noteq> [] \<and> take 1 sfx \<noteq> ustr ''.'') \<or> sfx = ustr ''.''
        then Inl (ValueError (ustr ''Invalid suffix''))
      else let nm = path_name p in
        if nm = [] then Inl (ValueError (ustr ''empty name''))
        else let old = name_suffix nm;
                 nm' = (if old = [] then nm @ sfx
                        else take (length nm - length old) nm @ sfx)
             in Inr (p\<lparr>parts := butlast (parts p) @ [nm']\<rparr>))"

text \<open>\<open>within_dir d p\<close>: the path \<open>p\<close> is the directory \<open>d\<close> or lies below it.\<close>

definition within_dir :: "path \<Rightarrow> path \<Rightarrow> bool" where
  "within_dir d p = (anchor p = anchor d \<and> prefix (parts d) (parts p))"

section \<open>The world: file system and trace of effects\<close>

datatype chat_action = TYPING | UPLOAD_VIDEO | RECORD_VIDEO

text \<open>
  The texts the bot sends, by their role: the rejection of a text that is no supported
  link, the three status texts (with the platform name, with height and CRF), the
  size-exceeded message, and the two failure reports (with the text of the error).
\<close>

datatype notice =
    InvalidLink
  | Downloading str
  | Compressing int int
  | Uploading
  | TooLarge
  | SendFailed str
  | DownloadFailed str

datatype optval = OStr str | OBool bool | OInt int

type_synonym ydl_opts = "(str \<times> optval) list"

datatype log_record =
    Downloaded rat str
  | Compressed rat int int
  | SendingFailed
  | ProcessFailed

text \<open>
  What a run does to the outside, in order. \<open>Transcode src dst max_h crf rc ex\<close> is one
  run of the transcoding engine by \<open>ffmpeg_compress\<close>, with the two observations the
  adapter makes afterwards: the exit status and whether \<open>dst\<close> exists.
\<close>

datatype event =
    Answer notice
  | EditText notice
  | SendChatAction int chat_action
  | AnswerVideo path str
  | AnswerDocument path str
  | Transcode path path int int int bool
  | ExtractInfo ydl_opts str
  | Logging log_record
  | Mkdtemp str
  | Rmtree str

text \<open>
  \<open>fs\<close> maps every existing path (file or directory) to its \<open>st_size\<close>; this is all the
  source reads of the file system (\<open>exists\<close>, \<open>stat().st_size\<close>).
\<close>

record world =
  fs :: "path \<rightharpoonup> nat"
  trace :: "event list"

definition emit :: "event \<Rightarrow> world \<Rightarrow> world" where
  "emit ev w = w\<lparr>trace := trace w @ [ev]\<rparr>"

definition path_exists :: "world \<Rightarrow> path \<Rightarrow> bool" where
  "path_exists w p = (fs w p \<noteq> None)"

definition st_size :: "world \<Rightarrow> path \<Rightarrow> exn + nat" where
  "st_size w p =
     (case fs w p of None \<Rightarrow> Inl (FileNotFoundError (ustr ''No such file or directory''))
      | Some n \<Rightarrow> Inr n)"

text \<open>The result of \<open>extract_info\<close>: a dictionary with the two keys the source reads, or
  something else.\<close>

datatype info = InfoDict "str option list" "str option" | InfoOther

text \<open>
  The collaborators, as functions of the world they are called in (its trace included,
  so that they may answer differently from call to call):
  the process environment; the chat transport, which may refuse an operation with an
  error; the transcoding engine, which ends with an exit status and leaves a file
  system; the extraction engine, which raises or returns the information and leaves a
  file system; and \<open>tempfile.mkdtemp\<close>, which raises or creates a directory.
\<close>

record env =
  environ :: "str \<rightharpoonup> str"
  transport :: "world \<Rightarrow> event \<Rightarrow> exn option"
  engine :: "world \<Rightarrow> str list \<Rightarrow> int \<times> (path \<rightharpoonup> nat)"
  extract_info :: "world \<Rightarrow> ydl_opts \<Rightarrow> str \<Rightarrow> exn + info \<times> (path \<rightharpoonup> nat)"
  prepare_filename :: "ydl_opts \<Rightarrow> info \<Rightarrow> str"
  mkdtemp :: "world \<Rightarrow> exn + str \<times> nat"

definition send :: "env \<Rightarrow> event \<Rightarrow> world \<Rightarrow> (exn + unit) \<times> world" where
  "send env ev w =
     (case transport env w ev of
        None \<Rightarrow> (Inr (), emit ev w)
      | Some e \<Rightarrow> (Inl e, emit ev w))"

section \<open>Transcode adapter\<close>

definition ffmpeg_cmd :: "path \<Rightarrow> path \<Rightarrow> int \<Rightarrow> int \<Rightarrow> str list" where
  "ffmpeg_cmd src dst max_h crf =
     [ustr ''ffmpeg'', ustr ''-y'',
      ustr ''-i'', path_str src,
      ustr ''-vf'', ustr ''scale=-2:'' @ str_int max_h,
      ustr ''-c:v'', ustr ''libx264'', ustr ''-preset'', ustr ''veryfast'',
      ustr ''-crf'', str_int crf,
      ustr ''-c:a'', ustr ''aac'', ustr ''-b:a'', ustr ''128k'',
      path_str dst]"

definition ffmpeg_compress ::
  "env \<Rightarrow> path \<Rightarrow> path \<Rightarrow> int \<Rightarrow> int \<Rightarrow> world \<Rightarrow> (exn + unit) \<times> world" where
  "ffmpeg_compress env src dst max_h crf w =
     (let cmd = ffmpeg_cmd src dst max_h crf;
          (returncode, files) = engine env w cmd;
          w' = emit (Transcode src dst max_h crf returncode (files dst \<noteq> None))
                 (w\<lparr>fs := files\<rparr>)
      in if returncode \<noteq> 0 \<or> \<not> path_exists w' dst
         then (Inl (RuntimeError (ustr ''ffmpeg compress failed'')), w')
         else (Inr (), w'))"

section \<open>Shrink ladder\<close>

definition attempts :: "(int \<times> int) list" where
  "attempts = [(MAX_HEIGHT_TARGET, 28), (MAX_HEIGHT_TARGET, 30), (360, 28), (360, 30)]"

definition crf_suffix :: "int \<Rightarrow> int \<Rightarrow> str" where
  "crf_suffix max_h crf =
     ustr ''.'' @ str_int max_h @ ustr ''p.crf'' @ str_int crf @ ustr ''.mp4''"

text \<open>The \<open>for\<close> loop of \<open>shrink_until_ok\<close> over the attempts still to make.\<close>

fun shrink_loop ::
  "env \<Rightarrow> (int \<times> int) list \<Rightarrow> path \<Rightarrow> world \<Rightarrow> (exn + path) \<times> world" where
  "shrink_loop env [] current w = (Inr current, w)"
| "shrink_loop env ((max_h, crf) # rest) current w =
     (case send env (EditText (Compressing max_h crf)) w of
        (Inl e, w1) \<Rightarrow> (Inl e, w1)
      | (Inr _, w1) \<Rightarrow>
          (case with_suffix current (crf_suffix max_h crf) of
             Inl e \<Rightarrow> (Inl e, w1)
           | Inr candidate \<Rightarrow>
               (case ffmpeg_compress env current candidate max_h crf w1 of
                  (Inl e, w2) \<Rightarrow> (Inl e, w2)
                | (Inr _, w2) \<Rightarrow>
                    (case st_size w2 candidate of
                       Inl e \<Rightarrow> (Inl e, w2)
                     | Inr n \<Rightarrow>
                         (let size_mb = human_mb (int n);
                              w3 = emit (Logging (Compressed size_mb max_h crf)) w2
                          in if size_mb \<le> of_int SAFE_LIMIT_MB then (Inr candidate, w3)
                             else shrink_loop env rest candidate w3)))))"

definition shrink_until_ok :: "env \<Rightarrow> path \<Rightarrow> world \<Rightarrow> (exn + path) \<times> world" where
  "shrink_until_ok env filepath w =
     (case st_size w filepath of
        Inl e \<Rightarrow> (Inl e, w)
      | Inr n \<Rightarrow>
          if human_mb (int n) \<le> of_int SAFE_LIMIT_MB then (Inr filepath, w)
          else shrink_loop env attempts filepath w)"

section \<open>Delivery selector\<close>

record message =
  msg_text :: "str option"
  chat_id :: int

definition caption_of :: "str \<Rightarrow> str" where
  "caption_of title = (if title \<noteq> [] then ustr ''<b>'' @ title @ ustr ''</b>'' else ustr ''Video'')"

definition send_file ::
  "env \<Rightarrow> message \<Rightarrow> path \<Rightarrow> str \<Rightarrow> world \<Rightarrow> (exn + unit) \<times> world" where
  "send_file env message filepath title w =
     (case st_size w filepath of
        Inl e \<Rightarrow> (Inl e, w)
      | Inr n \<Rightarrow>
          (let size_mb = human_mb (int n);
               caption = caption_of title
           in case send env (SendChatAction (chat_id message) UPLOAD_VIDEO) w of
                (Inl e, w1) \<Rightarrow> (Inl e, w1)
              | (Inr _, w1) \<Rightarrow>
                  if of_int TELEGRAM_LIMIT_MB < size_mb then send env (Answer TooLarge) w1
                  else
                    (case (if size_mb \<le> of_int SEND_AS_VIDEO_THRESHOLD_MB
                           then send env (AnswerVideo filepath caption) w1
                           else send env (AnswerDocument filepath caption) w1) of
                       (Inr u, w2) \<Rightarrow> (Inr u, w2)
                     | (Inl e, w2) \<Rightarrow>
                         send env (Answer (SendFailed (exn_str e)))
                           (emit (Logging SendingFailed) w2))))"

section \<open>Extraction\<close>

definition IG_COOKIES_PATH :: "env \<Rightarrow> str" where
  "IG_COOKIES_PATH env =
     strip (case environ env (ustr ''IG_COOKIES_PATH'') of None \<Rightarrow> [] | Some v \<Rightarrow> v)"

text \<open>A \<open>dict\<close> keeps its keys in insertion order; assigning to a key that is absent
  appends it, which is what \<open>AList.update\<close> does.\<close>

definition build_ydl_opts :: "env \<Rightarrow> path \<Rightarrow> bool \<Rightarrow> int \<Rightarrow> ydl_opts" where
  "build_ydl_opts env tmp_dir from_instagram max_h =
     (let fmt_chain =
            ustr ''bv*[height<='' @ str_int max_h @ ustr ''][ext=mp4]+ba[ext=m4a]'' @
            ustr ''/b[height<='' @ str_int max_h @ ustr ''][ext=mp4]'' @
            ustr ''/best[ext=mp4]'' @
            ustr ''/best'';
          opts =
            [(ustr ''outtmpl'', OStr (path_str (joinpath tmp_dir (ustr ''%(title).200B.%(ext)s'')))),
             (ustr ''format'', OStr fmt_chain),
             (ustr ''merge_output_format'', OStr (ustr ''mp4'')),
             (ustr ''noplaylist'', OBool True),
             (ustr ''quiet'', OBool True),
             (ustr ''no_warnings'', OBool True),
             (ustr ''prefer_ffmpeg'', OBool True),
             (ustr ''retries'', OInt 3)]
      in if from_instagram \<and> IG_COOKIES_PATH env \<noteq> []
         then AList.update (ustr ''cookies'') (OStr (IG_COOKIES_PATH env)) opts
         else opts)"

text \<open>
  The nested function \<open>_extract\<close> of \<open>handle_url\<close>. In \<open>InfoDict rd title\<close>, \<open>rd\<close> is the
  list under \<open>requested_downloads\<close> (empty when the key is absent), each entry with its
  \<open>filepath\<close> if it has one.
\<close>

definition extract' :: "env \<Rightarrow> ydl_opts \<Rightarrow> str \<Rightarrow> world \<Rightarrow> (exn + path \<times> str) \<times> world" where
  "extract' env ydl_opts url w =
     (let w0 = emit (ExtractInfo ydl_opts url) w
      in case extract_info env w ydl_opts url of
           Inl e \<Rightarrow> (Inl e, w0)
         | Inr (info, files) \<Rightarrow>
             (let w1 = w0\<lparr>fs := files\<rparr>
              in case info of
                   InfoOther \<Rightarrow>
                     (Inl (RuntimeError (ustr ''Unexpected info type from yt-dlp'')), w1)
                 | InfoDict rd title \<Rightarrow>
                     (let found =
                            (case rd of
                               [] \<Rightarrow> None
                             | fp # _ \<Rightarrow>
                                 (case fp of
                                    None \<Rightarrow> None
                                  | Some f \<Rightarrow> if f \<noteq> [] then Some (Path f) else None));
                          resolved =
                            (case found of
                               Some p \<Rightarrow> Inr p
                             | None \<Rightarrow>
                                 (let p = Path (prepare_filename env ydl_opts info)
                                  in if path_exists w1 p then Inr p
                                     else with_suffix p (ustr ''.mp4'')));
                          title' =
                            (case title of
                               None \<Rightarrow> ustr ''video''
                             | Some t \<Rightarrow> if t \<noteq> [] then t else ustr ''video'')
                      in case resolved of
                           Inl e \<Rightarrow> (Inl e, w1)
                         | Inr p \<Rightarrow> (Inr (p, title'), w1))))"

section \<open>Request handler\<close>

text \<open>The body of the \<open>try\<close> statement of \<open>handle_url\<close>.\<close>

definition process ::
  "env \<Rightarrow> message \<Rightarrow> str \<Rightarrow> str \<Rightarrow> ydl_opts \<Rightarrow> world \<Rightarrow> (exn + unit) \<times> world" where
  "process env message url plat ydl_opts w =
     (case send env (SendChatAction (chat_id message) RECORD_VIDEO) w of
        (Inl e, w1) \<Rightarrow> (Inl e, w1)
      | (Inr _, w1) \<Rightarrow>
          (case extract' env ydl_opts url w1 of
             (Inl e, w2) \<Rightarrow> (Inl e, w2)
           | (Inr (filepath, title), w2) \<Rightarrow>
               if \<not> path_exists w2 filepath
               then (Inl (FileNotFoundError (ustr ''Downloaded file not found'')), w2)
               else
                 (case st_size w2 filepath of
                    Inl e \<Rightarrow> (Inl e, w2)
                  | Inr n \<Rightarrow>
                      (let size_mb = human_mb (int n);
                           w3 = emit (Logging (Downloaded size_mb plat)) w2
                       in case (if of_int SAFE_LIMIT_MB < size_mb
                                then shrink_until_ok env filepath w3
                                else (Inr filepath, w3)) of
                            (Inl e, w4) \<Rightarrow> (Inl e, w4)
                          | (Inr filepath', w4) \<Rightarrow>
                              (case send env (EditText Uploading) w4 of
                                 (Inl e, w5) \<Rightarrow> (Inl e, w5)
                               | (Inr _, w5) \<Rightarrow> send_file env message filepath' title w5)))))"

text \<open>The \<open>try\<close> statement with its handler: any exception of the body is logged and
  reported by rewriting the status message (which may itself raise).\<close>

definition guarded ::
  "env \<Rightarrow> message \<Rightarrow> str \<Rightarrow> str \<Rightarrow> ydl_opts \<Rightarrow> world \<Rightarrow> (exn + unit) \<times> world" where
  "guarded env message url plat ydl_opts w =
     (case process env message url plat ydl_opts w of
        (Inr u, w1) \<Rightarrow> (Inr u, w1)
      | (Inl e, w1) \<Rightarrow>
          send env (EditText (DownloadFailed (exn_str e))) (emit (Logging ProcessFailed) w1))"

text \<open>Leaving \<open>tempfile.TemporaryDirectory\<close> removes the directory and all below it.\<close>

definition rmtree :: "path \<Rightarrow> world \<Rightarrow> world" where
  "rmtree d w = w\<lparr>fs := (\<lambda>p. if within_dir d p then None else fs w p)\<rparr>"

text \<open>The block under \<open>async with CONCURRENCY\<close>.\<close>

definition pipeline :: "env \<Rightarrow> message \<Rightarrow> str \<Rightarrow> world \<Rightarrow> (exn + unit) \<times> world" where
  "pipeline env message url w =
     (let plat = platform_name url
      in case send env (Answer (Downloading plat)) w of
           (Inl e, w1) \<Rightarrow> (Inl e, w1)
         | (Inr _, w1) \<Rightarrow>
             (case mkdtemp env w1 of
                Inl e \<Rightarrow> (Inl e, w1)
              | Inr (td, sz) \<Rightarrow>
                  (let w2 = emit (Mkdtemp td) (w1\<lparr>fs := (fs w1)(Path td \<mapsto> sz)\<rparr>);
                       tmp_dir = Path td;
                       ydl_opts = build_ydl_opts env tmp_dir (plat = ustr ''Instagram'')
                                    MAX_HEIGHT_TARGET;
                       (r, w3) = guarded env message url plat ydl_opts w2
                   in (r, emit (Rmtree td) (rmtree (Path td) w3)))))"

text \<open>
  The semaphore \<open>CONCURRENCY\<close> is its counter. \<open>acquire\<close> on a counter of 0 does not
  return until another job releases.
\<close>

definition CONCURRENCY :: nat where "CONCURRENCY = 2"

definition acquire :: "nat \<Rightarrow> nat option" where
  "acquire v = (if v = 0 then None else Some (v - 1))"

definition release :: "nat \<Rightarrow> nat" where
  "release v = v + 1"

text \<open>
  \<open>handle_url\<close> run on its own, from a world and a value of the semaphore. The result is
  \<open>None\<close> when the handler is left waiting for a permit; otherwise what it returns or
  raises, and the semaphore and the world it leaves.
\<close>

definition handle_url ::
  "env \<Rightarrow> message \<Rightarrow> nat \<Rightarrow> world \<Rightarrow> ((exn + unit) \<times> nat \<times> world) option" where
  "handle_url env message sem w =
     (let url = strip (case msg_text message of None \<Rightarrow> [] | Some t \<Rightarrow> t)
      in if \<not> is_supported_url url
         then (case send env (Answer InvalidLink) w of (r, w') \<Rightarrow> Some (r, sem, w'))
         else
           (case acquire sem of
              None \<Rightarrow> None
            | Some sem1 \<Rightarrow>
                (case pipeline env message url w of
                   (r, w') \<Rightarrow> Some (r, release sem1, w'))))"

section \<open>Several handlers at once\<close>

text \<open>
  The event loop runs one handler per message. Seen from the semaphore, a handler takes
  three steps: it examines the text (and answers and ends, or goes on to ask for a
  permit); it gets a permit, which needs the counter to be positive; it runs the block
  under the semaphore to its end and gives the permit back. The steps of different
  handlers interleave in any order. The block itself is taken as one step.
\<close>

datatype phase =
    Received message
  | Waiting message str
  | Running message str
  | Finished "exn + unit"

record system =
  sem :: nat
  shared :: world
  jobs :: "phase list"

datatype action = Examine nat | Enter nat | Leave nat

fun step :: "env \<Rightarrow> system \<Rightarrow> action \<Rightarrow> system option" where
  "step env s (Examine i) =
     (if i < length (jobs s) then
        (case jobs s ! i of
           Received message \<Rightarrow>
             (let url = strip (case msg_text message of None \<Rightarrow> [] | Some t \<Rightarrow> t)
              in if \<not> is_supported_url url
                 then (case send env (Answer InvalidLink) (shared s) of
                         (r, w') \<Rightarrow> Some (s\<lparr>shared := w', jobs := (jobs s)[i := Finished r]\<rparr>))
                 else Some (s\<lparr>jobs := (jobs s)[i := Waiting message url]\<rparr>))
         | _ \<Rightarrow> None)
      else None)"
| "step env s (Enter i) =
     (if i < length (jobs s) then
        (case jobs s ! i of
           Waiting message url \<Rightarrow>
             (case acquire (sem s) of
                None \<Rightarrow> None
              | Some v \<Rightarrow> Some (s\<lparr>sem := v, jobs := (jobs s)[i := Running message url]\<rparr>))
         | _ \<Rightarrow> None)
      else None)"
| "step env s (Leave i) =
     (if i < length (jobs s) then
        (case jobs s ! i of
           Running message url \<Rightarrow>
             (case pipeline env message url (shared s) of
                (r, w') \<Rightarrow>
                  Some (s\<lparr>sem := release (sem s), shared := w',
                          jobs := (jobs s)[i := Finished r]\<rparr>))
         | _ \<Rightarrow> None)
      else None)"

fun run :: "env \<Rightarrow> system \<Rightarrow> action list \<Rightarrow> system option" where
  "run env s [] = Some s"
| "run env s (a # as) = (case step env s a of None \<Rightarrow> None | Some s' \<Rightarrow> run env s' as)"

definition start :: "world \<Rightarrow> message list \<Rightarrow> system" where
  "start w msgs = \<lparr>sem = CONCURRENCY, shared = w, jobs = map Received msgs\<rparr>"

fun is_running :: "phase \<Rightarrow> bool" where
  "is_running (Running message url) = True"
| "is_running _ = False"

definition running :: "system \<Rightarrow> nat" where
  "running s = length (filter is_running (jobs s))"

section \<open>Reading a trace\<close>

text \<open>The pairs (height, CRF) of the transcode runs in a trace, in order.\<close>

fun invocations :: "event list \<Rightarrow> (int \<times> int) list" where
  "invocations [] = []"
| "invocations (Transcode src dst max_h crf rc ex # evs) = (max_h, crf) # invocations evs"
| "invocations (_ # evs) = invocations evs"

text \<open>The destinations of the transcode runs in a trace, in order.\<close>

fun outputs :: "event list \<Rightarrow> path list" where
  "outputs [] = []"
| "outputs (Transcode src dst max_h crf rc ex # evs) = dst # outputs evs"
| "outputs (_ # evs) = outputs evs"

text \<open>The sizes (in MB, as \<open>human_mb\<close> gives them) that the ladder measured and logged
  after its transcode runs, in order.\<close>

fun measured :: "event list \<Rightarrow> rat list" where
  "measured [] = []"
| "measured (Logging (Compressed m max_h crf) # evs) = m # measured evs"
| "measured (_ # evs) = measured evs"

text \<open>A transcode run after which the adapter raises.\<close>

fun failed_transcode :: "event \<Rightarrow> bool" where
  "failed_transcode (Transcode src dst max_h crf rc ex) = (rc \<noteq> 0 \<or> \<not> ex)"
| "failed_transcode _ = False"

text \<open>The uploads attempted in a trace, in order.\<close>

fun uploads :: "event list \<Rightarrow> event list" where
  "uploads [] = []"
| "uploads (AnswerVideo p c # evs) = AnswerVideo p c # uploads evs"
| "uploads (AnswerDocument p c # evs) = AnswerDocument p c # uploads evs"
| "uploads (_ # evs) = uploads evs"

text \<open>
  The world after an event of the ladder, from the world before it: a run of the engine
  leaves the file system that the engine leaves for the command line of that run; a status
  text and a log line leave the file system alone (the ladder emits no other event).
  \<open>replay env w evs\<close> is the world after the events \<open>evs\<close>, from \<open>w\<close>.
\<close>

fun after_event :: "env \<Rightarrow> world \<Rightarrow> event \<Rightarrow> world" where
  "after_event env w (Transcode src dst max_h crf rc ex) =
     emit (Transcode src dst max_h crf rc ex)
       (w\<lparr>fs := snd (engine env w (ffmpeg_cmd src dst max_h crf))\<rparr>)"
| "after_event env w ev = emit ev w"

definition replay :: "env \<Rightarrow> world \<Rightarrow> event list \<Rightarrow> world" where
  "replay env w evs = foldl (after_event env) w evs"

text \<open>The invariant of the ladder's trace \<open>evs\<close>, for the attempts \<open>as\<close> still to make from
  the artifact \<open>cur\<close>, with result \<open>r\<close>.\<close>

definition ladder_run ::
  "(int \<times> int) list \<Rightarrow> path \<Rightarrow> exn + path \<Rightarrow> event list \<Rightarrow> bool" where
  "ladder_run as cur r evs \<longleftrightarrow>
     invocations evs = take (length (invocations evs)) as \<and>
     length (measured evs) \<le> length (invocations evs) \<and>
     (\<forall>m\<in>set (butlast (measured evs)). of_int SAFE_LIMIT_MB < m) \<and>
     (measured evs \<noteq> [] \<and> last (measured evs) \<le> of_int SAFE_LIMIT_MB \<longrightarrow>
        length (invocations evs) = length (measured evs)) \<and>
     (\<forall>q. r = Inr q \<longrightarrow>
        length (measured evs) = length (invocations evs) \<and> q = last (cur # outputs evs) \<and>
        (invocations evs = as \<or>
         (measured evs \<noteq> [] \<and> last (measured evs) \<le> of_int SAFE_LIMIT_MB))) \<and>
     (\<forall>e. r = Inl e \<longrightarrow>
        length (invocations evs) < length as \<or> (evs \<noteq> [] \<and> failed_transcode (last evs))) \<and>
     (\<forall>e\<in>set evs. failed_transcode e \<longrightarrow>
        r = Inl (RuntimeError (ustr ''ffmpeg compress failed'')) \<and> last evs = e) \<and>
     (\<forall>e\<in>set (butlast evs). \<not> failed_transcode e)"

definition dots :: "str \<Rightarrow> nat" where
  "dots s = length (filter (\<lambda>c. c = 46) s)"

text \<open>The events a job emits between creating and removing its scratch directory: no
  directory is created or removed, extraction runs with the given options and URL, and
  every engine run writes next to its source, under the name \<open>with_suffix\<close> gives.\<close>

fun body_event :: "ydl_opts \<Rightarrow> str \<Rightarrow> event \<Rightarrow> bool" where
  "body_event opts url (Mkdtemp td) = False"
| "body_event opts url (Rmtree td) = False"
| "body_event opts url (ExtractInfo opts' url') = (opts' = opts \<and> url' = url)"
| "body_event opts url (Transcode src dst max_h crf rc ex) =
     (with_suffix src (crf_suffix max_h crf) = Inr dst)"
| "body_event opts url _ = True"

section \<open>Example runs\<close>

text \<open>A chat transport that accepts everything, no extraction, no temporary directory, and
  a transcoding engine that always exits with \<open>rc\<close> and, when that is 0, leaves an output of
  \<open>n\<close> bytes at the destination (the last argument).\<close>

definition quiet_env :: "int \<Rightarrow> nat \<Rightarrow> env" where
  "quiet_env rc n =
     \<lparr> environ = Map.empty,
       transport = (\<lambda>w ev. None),
       engine = (\<lambda>w cmd. (rc, if rc = 0 then (fs w)(Path (last cmd) \<mapsto> n) else fs w)),
       extract_info = (\<lambda>w opts url. Inl (Raised (ustr ''unavailable''))),
       prepare_filename = (\<lambda>opts info. []),
       mkdtemp = (\<lambda>w. Inl (Raised (ustr ''unavailable''))) \<rparr>"

definition one_file :: "path \<Rightarrow> nat \<Rightarrow> world" where
  "one_file p n = \<lparr>fs = [p \<mapsto> n], trace = []\<rparr>"

definition in_t :: "string \<Rightarrow> path" where
  "in_t nm = \<lparr>anchor = ustr ''/'', parts = [ustr ''t'', ustr nm]\<rparr>"

definition a_message :: message where
  "a_message = \<lparr>msg_text = Some (ustr ''youtu.be/x''), chat_id = 7\<rparr>"

text \<open>An environment in which a job runs through: the credential path is configured, a
  scratch directory can be made, and extraction leaves a file of 10 MB in it.\<close>

definition demo_env :: env where
  "demo_env =
     \<lparr> environ = [ustr ''IG_COOKIES_PATH'' \<mapsto> ustr ''/c.txt''],
       transport = (\<lambda>w ev. None),
       engine = (\<lambda>w cmd. (0, (fs w)(Path (last cmd) \<mapsto> 1000))),
       extract_info =
         (\<lambda>w opts url.
            Inr (InfoDict [Some (ustr ''/tmp/job/v.mp4'')] (Some (ustr ''T'')),
                 (fs w)(Path (ustr ''/tmp/job/v.mp4'') \<mapsto> 10485760))),
       prepare_filename = (\<lambda>opts info. ustr ''/tmp/job/v.mp4''),
       mkdtemp = (\<lambda>w. Inr (ustr ''/tmp/job'', 4096)) \<rparr>"

definition reel_message :: message where
  "reel_message = \<lparr>msg_text = Some (ustr ''instagram.com/p/x''), chat_id = 7\<rparr>"

definition idle :: world where
  "idle = \<lparr>fs = Map.empty, trace = []\<rparr>"

text \<open>The trace of the job for \<open>reel_message\<close> in \<open>demo_env\<close>.\<close>

definition demo_trace :: "event list" where
  "demo_trace =
     [Answer (Downloading (ustr ''Instagram'')),
      Mkdtemp (ustr ''/tmp/job''),
      SendChatAction 7 RECORD_VIDEO,
      ExtractInfo (build_ydl_opts demo_env (Path (ustr ''/tmp/job'')) True MAX_HEIGHT_TARGET)
        (ustr ''instagram.com/p/x''),
      Logging (Downloaded 10 (ustr ''Instagram'')),
      EditText Uploading,
      SendChatAction 7 UPLOAD_VIDEO,
      AnswerVideo (Path (ustr ''/tmp/job/v.mp4'')) (ustr ''<b>T</b>''),
      Rmtree (ustr ''/tmp/job'')]"

text \<open>An environment like \<open>demo_env\<close>, but extraction leaves a file of 3000000000 bytes
  and the transcoding engine fails; and the trace of the job for \<open>reel_message\<close> in it.\<close>

definition broken_env :: env where
  "broken_env =
     \<lparr> environ = Map.empty,
       transport = (\<lambda>w ev. None),
       engine = (\<lambda>w cmd. (1, fs w)),
       extract_info =
         (\<lambda>w opts url.
            Inr (InfoDict [Some (ustr ''/tmp/job/v.mp4'')] (Some (ustr ''T'')),
                 (fs w)(Path (ustr ''/tmp/job/v.mp4'') \<mapsto> 3000000000))),
       prepare_filename = (\<lambda>opts info. ustr ''/tmp/job/v.mp4''),
       mkdtemp = (\<lambda>w. Inr (ustr ''/tmp/job'', 4096)) \<rparr>"

definition failed_run :: event where
  "failed_run =
     Transcode (Path (ustr ''/tmp/job/v.mp4'')) (Path (ustr ''/tmp/job/v.480p.crf28.mp4''))
       480 28 1 False"

definition broken_trace :: "event list" where
  "broken_trace =
     [Answer (Downloading (ustr ''Instagram'')),
      Mkdtemp (ustr ''/tmp/job''),
      SendChatAction 7 RECORD_VIDEO,
      ExtractInfo (build_ydl_opts broken_env (Path (ustr ''/tmp/job'')) True MAX_HEIGHT_TARGET)
        (ustr ''instagram.com/p/x''),
      Logging (Downloaded (143051 / 50) (ustr ''Instagram'')),
      EditText (Compressing 480 28),
      failed_run,
      Logging ProcessFailed,
      EditText (DownloadFailed (ustr ''ffmpeg compress failed'')),
      Rmtree (ustr ''/tmp/job'')]"

text \<open>An environment like \<open>demo_env\<close>, but no credential path is configured; and the trace
  of the job for \<open>reel_message\<close> in it.\<close>

definition anon_env :: env where
  "anon_env = demo_env\<lparr>environ := Map.empty\<rparr>"

definition anon_trace :: "event list" where
  "anon_trace =
     [Answer (Downloading (ustr ''Instagram'')),
      Mkdtemp (ustr ''/tmp/job''),
      SendChatAction 7 RECORD_VIDEO,
      ExtractInfo (build_ydl_opts anon_env (Path (ustr ''/tmp/job'')) True MAX_HEIGHT_TARGET)
        (ustr ''instagram.com/p/x''),
      Logging (Downloaded 10 (ustr ''Instagram'')),
      EditText Uploading,
      SendChatAction 7 UPLOAD_VIDEO,
      AnswerVideo (Path (ustr ''/tmp/job/v.mp4'')) (ustr ''<b>T</b>''),
      Rmtree (ustr ''/tmp/job'')]"

text \<open>An environment like \<open>quiet_env\<close>, but the chat transport refuses every operation.\<close>

definition deaf_env :: env where
  "deaf_env = (quiet_env 0 0)\<lparr>transport := (\<lambda>w ev. Some (Raised (ustr ''refused'')))\<rparr>"

text \<open>The trace of a run in which all four entries are tried.\<close>

definition four_rounds :: "event list" where
  "four_rounds =
     [EditText (Compressing 480 28),
      Transcode (in_t ''a.mp4'') (in_t ''a.480p.crf28.mp4'') 480 28 0 True,
      Logging (Compressed (143051 / 50) 480 28),
      EditText (Compressing 480 30),
      Transcode (in_t ''a.480p.crf28.mp4'') (in_t ''a.480p.crf28.480p.crf30.mp4'') 480 30 0 True,
      Logging (Compressed (143051 / 50) 480 30),
      EditText (Compressing 360 28),
      Transcode (in_t ''a.480p.crf28.480p.crf30.mp4'')
        (in_t ''a.480p.crf28.480p.crf30.360p.crf28.mp4'') 360 28 0 True,
      Logging (Compressed (143051 / 50) 360 28),
      EditText (Compressing 360 30),
      Transcode (in_t ''a.480p.crf28.480p.crf30.360p.crf28.mp4'')
        (in_t ''a.480p.crf28.480p.crf30.360p.crf28.360p.crf30.mp4'') 360 30 0 True,
      Logging (Compressed (143051 / 50) 360 30)]"

section \<open>Auxiliary notions\<close>

text \<open>A code point that no white space matches, with or without \<open>re.I\<close>; a pattern all of
  whose literals are such.\<close>

definition solid :: "nat \<Rightarrow> bool" where
  "solid p = (\<not> isspace p \<and> \<not> isspace (casefold p))"

fun solid_rx :: "rx \<Rightarrow> bool" where
  "solid_rx Eps = True"
| "solid_rx (Lit p) = solid p"
| "solid_rx (Seq r1 r2) = (solid_rx r1 \<and> solid_rx r2)"
| "solid_rx (Alt r1 r2) = (solid_rx r1 \<and> solid_rx r2)"
| "solid_rx (Opt r) = solid_rx r"

text \<open>Three kinds of events: those of the chat transport and the log; those the ladder
  emits (its status edit, an engine run that writes next to its source, its log line);
  and those that are neither an engine run nor an upload nor about the scratch
  directory.\<close>

fun chat_event :: "event \<Rightarrow> bool" where
  "chat_event (Transcode src dst max_h crf rc ex) = False"
| "chat_event (ExtractInfo opts url) = False"
| "chat_event (Mkdtemp td) = False"
| "chat_event (Rmtree td) = False"
| "chat_event _ = True"

fun ladder_event :: "event \<Rightarrow> bool" where
  "ladder_event (EditText (Compressing max_h crf)) = True"
| "ladder_event (Transcode src dst max_h crf rc ex) =
     (with_suffix src (crf_suffix max_h crf) = Inr dst)"
| "ladder_event (Logging (Compressed m max_h crf)) = True"
| "ladder_event _ = False"

fun plain_event :: "event \<Rightarrow> bool" where
  "plain_event (Transcode src dst max_h crf rc ex) = False"
| "plain_event (AnswerVideo p c) = False"
| "plain_event (AnswerDocument p c) = False"
| "plain_event (Mkdtemp td) = False"
| "plain_event (Rmtree td) = False"
| "plain_event _ = True"

text \<open>\<open>extends P w w'\<close>: the trace of \<open>w'\<close> is that of \<open>w\<close> followed by events that satisfy
  \<open>P\<close>.\<close>

definition extends :: "(event \<Rightarrow> bool) \<Rightarrow> world \<Rightarrow> world \<Rightarrow> bool" where
  "extends P w w' = (\<exists>evs. trace w' = trace w @ evs \<and> list_all P evs)"

section \<open>Admission predicate and platform classifier\<close>

lemmas url_eval =
  YOUTUBE_RE_def INSTAGRAM_RE_def scheme_www_def ustr_def lit_match_def casefold_def

text \<open>
  C10: \<open>is_supported_url\<close> holds exactly for the texts that \<open>platform_name\<close> classifies
  as YouTube or Instagram, and a text matching both patterns is classified as YouTube.
\<close>

theorem C10_supported_iff_platform:
  "(is_supported_url url \<longleftrightarrow>
      platform_name url = ustr ''YouTube'' \<or> platform_name url = ustr ''Instagram'') \<and>
   (re_search YOUTUBE_RE url \<and> re_search INSTAGRAM_RE url \<longrightarrow>
      platform_name url = ustr ''YouTube'')"
  by (simp add: is_supported_url_def platform_name_def ustr_def)

theorem C10_witness:
  "re_search YOUTUBE_RE (ustr ''youtu.be/ instagram.com/p/'') \<and>
   re_search INSTAGRAM_RE (ustr ''youtu.be/ instagram.com/p/'') \<and>
   is_supported_url (ustr ''youtu.be/ instagram.com/p/'') \<and>
   platform_name (ustr ''youtu.be/ instagram.com/p/'') = ustr ''YouTube''"
proof -
  have y: "re_search YOUTUBE_RE (ustr ''youtu.be/ instagram.com/p/'')"
    by (simp add: url_eval)
  have i: "re_search INSTAGRAM_RE (ustr ''youtu.be/ instagram.com/p/'')"
    by (simp add: url_eval)
  from y i C10_supported_iff_platform [of "ustr ''youtu.be/ instagram.com/p/''"]
  show ?thesis by blast
qed

section \<open>Rounded sizes against the limits\<close>

lemma rat_hundredths_le: "(of_int k / 100 \<le> (of_int c :: rat)) \<longleftrightarrow> k \<le> 100 * c"
proof -
  have "(of_int k / 100 \<le> (of_int c :: rat)) \<longleftrightarrow> (of_int k :: rat) \<le> of_int c * 100"
    by (simp add: divide_le_eq)
  also have "\<dots> \<longleftrightarrow> (of_int k :: rat) \<le> of_int (c * 100)" by simp
  also have "\<dots> \<longleftrightarrow> k \<le> c * 100" by (simp only: of_int_le_iff)
  finally show ?thesis by (simp add: mult.commute)
qed

lemma round_half_even_le:
  assumes d: "0 < d" and k: "even k"
  shows "round_half_even n d \<le> k \<longleftrightarrow> 2 * n \<le> (2 * k + 1) * d"
proof -
  define q where "q = n div d"
  define r where "r = n mod d"
  have n: "n = q * d + r" by (simp add: q_def r_def)
  have r: "0 \<le> r" "r < d" using d by (simp_all add: r_def)
  have rhe: "round_half_even n d =
      (if 2 * r < d then q else if d < 2 * r then q + 1 else if even q then q else q + 1)"
    by (simp add: round_half_even_def Let_def q_def r_def)
  have B: "2 * n = 2 * (q * d) + 2 * r" using n by simp
  consider "q \<le> k - 1" | "q = k" | "k + 1 \<le> q" by linarith
  then show ?thesis
  proof cases
    case 1
    then have "q * d \<le> (k - 1) * d" using d by (simp add: mult_right_mono)
    then have "q * d + d \<le> k * d" by (simp add: algebra_simps)
    with 1 r show ?thesis unfolding rhe B by (auto simp: algebra_simps)
  next
    case 2
    with r k show ?thesis unfolding rhe B by (auto simp: algebra_simps)
  next
    case 3
    then have "(k + 1) * d \<le> q * d" using d by (simp add: mult_right_mono)
    then have "k * d + d \<le> q * d" by (simp add: algebra_simps)
    with 3 r show ?thesis unfolding rhe B by (auto simp: algebra_simps)
  qed
qed

lemma human_mb_le:
  assumes "even c"
  shows "human_mb b \<le> of_int c \<longleftrightarrow> 200 * b \<le> (200 * c + 1) * 1048576"
  unfolding human_mb_def rat_hundredths_le
  using round_half_even_le [of "1024 * 1024" "100 * c" "b * 100"] assms
  by simp

lemma human_mb_safe: "human_mb b \<le> of_int SAFE_LIMIT_MB \<longleftrightarrow> b \<le> 1992299642"
  using human_mb_le [of 1900 b] by (simp add: SAFE_LIMIT_MB_def) arith

lemma human_mb_limit: "human_mb b \<le> of_int TELEGRAM_LIMIT_MB \<longleftrightarrow> b \<le> 2097157242"
  using human_mb_le [of 2000 b] by (simp add: TELEGRAM_LIMIT_MB_def) arith

lemma human_mb_video: "human_mb b \<le> of_int SEND_AS_VIDEO_THRESHOLD_MB \<longleftrightarrow> b \<le> 52434042"
  using human_mb_le [of 50 b] by (simp add: SEND_AS_VIDEO_THRESHOLD_MB_def) arith

section \<open>Traces\<close>

lemma invocations_append: "invocations (xs @ ys) = invocations xs @ invocations ys"
  by (induction xs rule: invocations.induct) simp_all

lemma outputs_append: "outputs (xs @ ys) = outputs xs @ outputs ys"
  by (induction xs rule: outputs.induct) simp_all

lemma measured_append: "measured (xs @ ys) = measured xs @ measured ys"
  by (induction xs rule: measured.induct) simp_all

lemma uploads_append: "uploads (xs @ ys) = uploads xs @ uploads ys"
  by (induction xs rule: uploads.induct) simp_all

lemma length_outputs: "length (outputs evs) = length (invocations evs)"
  by (induction evs rule: outputs.induct) simp_all

lemma send_trace: "send env ev w = (r, w') \<Longrightarrow> trace w' = trace w @ [ev] \<and> fs w' = fs w"
  by (auto simp: send_def emit_def split: option.splits)

lemma send_world: "send env ev w = (r, w') \<Longrightarrow> w' = emit ev w"
  by (auto simp: send_def split: option.splits)

lemma replay_Nil [simp]: "replay env w [] = w"
  by (simp add: replay_def)

lemma replay_Cons [simp]: "replay env w (ev # evs) = replay env (after_event env w ev) evs"
  by (simp add: replay_def)

lemma replay_append: "replay env w (xs @ ys) = replay env (replay env w xs) ys"
  by (simp add: replay_def)

section \<open>The ladder, step by step\<close>

lemma ffmpeg_compress_trace:
  assumes "ffmpeg_compress env src dst max_h crf w = (r, w')"
  shows "\<exists>rc ex. trace w' = trace w @ [Transcode src dst max_h crf rc ex] \<and>
           w' = after_event env w (Transcode src dst max_h crf rc ex) \<and>
           (if rc \<noteq> 0 \<or> \<not> ex
            then r = Inl (RuntimeError (ustr ''ffmpeg compress failed''))
            else r = Inr () \<and> fs w' dst \<noteq> None)"
proof -
  obtain rc files where e: "engine env w (ffmpeg_cmd src dst max_h crf) = (rc, files)"
    by (cases "engine env w (ffmpeg_cmd src dst max_h crf)")
  let ?w = "emit (Transcode src dst max_h crf rc (files dst \<noteq> None)) (w\<lparr>fs := files\<rparr>)"
  have w': "w' = ?w" and r: "r = (if rc \<noteq> 0 \<or> files dst = None
      then Inl (RuntimeError (ustr ''ffmpeg compress failed'')) else Inr ())"
    using assms e by (auto simp: ffmpeg_compress_def Let_def path_exists_def emit_def split: if_splits)
  have "trace w' = trace w @ [Transcode src dst max_h crf rc (files dst \<noteq> None)]"
    by (simp add: w' emit_def)
  moreover have "fs w' dst = files dst" by (simp add: w' emit_def)
  moreover have "w' = after_event env w (Transcode src dst max_h crf rc (files dst \<noteq> None))"
    by (simp add: w' e)
  ultimately show ?thesis using r by (intro exI [of _ rc] exI [of _ "files dst \<noteq> None"]) auto
qed

lemma shrink_step:
  assumes "shrink_loop env ((max_h, crf) # rest) current w = (r, w')"
  obtains
    (abort) e where "r = Inl e" "trace w' = trace w @ [EditText (Compressing max_h crf)]"
      "w' = replay env w [EditText (Compressing max_h crf)]"
  | (failed) cand rc ex where
      "r = Inl (RuntimeError (ustr ''ffmpeg compress failed''))" "rc \<noteq> 0 \<or> \<not> ex"
      "with_suffix current (crf_suffix max_h crf) = Inr cand"
      "trace w' = trace w @ [EditText (Compressing max_h crf), Transcode current cand max_h crf rc ex]"
      "w' = replay env w [EditText (Compressing max_h crf), Transcode current cand max_h crf rc ex]"
  | (fits) cand m where
      "r = Inr cand" "m \<le> of_int SAFE_LIMIT_MB"
      "with_suffix current (crf_suffix max_h crf) = Inr cand"
      "trace w' = trace w @ [EditText (Compressing max_h crf),
          Transcode current cand max_h crf 0 True, Logging (Compressed m max_h crf)]"
      "w' = replay env w [EditText (Compressing max_h crf),
          Transcode current cand max_h crf 0 True, Logging (Compressed m max_h crf)]"
      "\<exists>k. fs (replay env w [EditText (Compressing max_h crf),
          Transcode current cand max_h crf 0 True]) cand = Some k \<and> m = human_mb (int k)"
  | (large) cand m w3 where
      "shrink_loop env rest cand w3 = (r, w')" "of_int SAFE_LIMIT_MB < m"
      "with_suffix current (crf_suffix max_h crf) = Inr cand"
      "trace w3 = trace w @ [EditText (Compressing max_h crf),
          Transcode current cand max_h crf 0 True, Logging (Compressed m max_h crf)]"
      "w3 = replay env w [EditText (Compressing max_h crf),
          Transcode current cand max_h crf 0 True, Logging (Compressed m max_h crf)]"
      "\<exists>k. fs (replay env w [EditText (Compressing max_h crf),
          Transcode current cand max_h crf 0 True]) cand = Some k \<and> m = human_mb (int k)"
proof -
  obtain r1 w1 where s: "send env (EditText (Compressing max_h crf)) w = (r1, w1)"
    by (cases "send env (EditText (Compressing max_h crf)) w")
  then have t1: "trace w1 = trace w @ [EditText (Compressing max_h crf)]"
    by (simp add: send_trace)
  from s have v1: "w1 = replay env w [EditText (Compressing max_h crf)]"
    by (simp add: send_world)
  show thesis
  proof (cases r1)
    case (Inl e)
    with assms s have "r = Inl e" "w' = w1" by auto
    with t1 v1 show thesis by (auto intro: abort)
  next
    case r1: (Inr u)
    show thesis
    proof (cases "with_suffix current (crf_suffix max_h crf)")
      case (Inl e)
      with assms s r1 have "r = Inl e" "w' = w1" by auto
      with t1 v1 show thesis by (auto intro: abort)
    next
      case cand: (Inr cand)
      obtain r2 w2 where f: "ffmpeg_compress env current cand max_h crf w1 = (r2, w2)"
        by (cases "ffmpeg_compress env current cand max_h crf w1")
      from ffmpeg_compress_trace [OF f] obtain rc ex where
        t2: "trace w2 = trace w1 @ [Transcode current cand max_h crf rc ex]" and
        v2: "w2 = after_event env w1 (Transcode current cand max_h crf rc ex)" and
        r2: "if rc \<noteq> 0 \<or> \<not> ex
            then r2 = Inl (RuntimeError (ustr ''ffmpeg compress failed''))
            else r2 = Inr () \<and> fs w2 cand \<noteq> None" by blast
      from v1 v2 have v2': "w2 = replay env w [EditText (Compressing max_h crf),
          Transcode current cand max_h crf rc ex]" by simp
      show thesis
      proof (cases "rc \<noteq> 0 \<or> \<not> ex")
        case True
        with r2 have "r2 = Inl (RuntimeError (ustr ''ffmpeg compress failed''))" by simp
        with assms s r1 cand f
        have "r = Inl (RuntimeError (ustr ''ffmpeg compress failed''))" "w' = w2" by auto
        with True t1 t2 cand v2' show thesis by (auto intro: failed)
      next
        case False
        with r2 obtain n where r2': "r2 = Inr ()" and n: "fs w2 cand = Some n" by auto
        from False t2 have t2': "trace w2 = trace w1 @ [Transcode current cand max_h crf 0 True]"
          by simp
        from False v2' have v2'': "w2 = replay env w [EditText (Compressing max_h crf),
          Transcode current cand max_h crf 0 True]" by simp
        let ?m = "human_mb (int n)"
        let ?w3 = "emit (Logging (Compressed ?m max_h crf)) w2"
        have t3: "trace ?w3 = trace w @ [EditText (Compressing max_h crf),
          Transcode current cand max_h crf 0 True, Logging (Compressed ?m max_h crf)]"
          using t2' t1 by (simp add: emit_def)
        have v3: "?w3 = replay env w [EditText (Compressing max_h crf),
          Transcode current cand max_h crf 0 True, Logging (Compressed ?m max_h crf)]"
          by (subst v2'') simp
        have k: "\<exists>k. fs (replay env w [EditText (Compressing max_h crf),
          Transcode current cand max_h crf 0 True]) cand = Some k \<and> ?m = human_mb (int k)"
          using n v2'' by auto
        show thesis
        proof (cases "?m \<le> of_int SAFE_LIMIT_MB")
          case True
          with assms s r1 cand f r2' n have "r = Inr cand" "w' = ?w3"
            by (auto simp: st_size_def Let_def)
          with True t3 cand v3 k show thesis by (intro fits [of cand ?m]) auto
        next
          case False
          with assms s r1 cand f r2' n have "shrink_loop env rest cand ?w3 = (r, w')"
            by (auto simp: st_size_def Let_def)
          with False t3 cand v3 k show thesis by (intro large [of cand ?w3 ?m]) auto
        qed
      qed
    qed
  qed
qed


lemma ladder_run_large:
  assumes "ladder_run rest cand r evs" "of_int SAFE_LIMIT_MB < m"
  shows "ladder_run ((max_h, crf) # rest) current r
     ([EditText (Compressing max_h crf), Transcode current cand max_h crf 0 True,
       Logging (Compressed m max_h crf)] @ evs)"
proof -
  have bl: "butlast (m # measured evs) = (if measured evs = [] then [] else m # butlast (measured evs))"
    by simp
  have ble: "set (butlast ([EditText (Compressing max_h crf), Transcode current cand max_h crf 0 True,
       Logging (Compressed m max_h crf)] @ evs)) \<subseteq> {EditText (Compressing max_h crf), Transcode current cand max_h crf 0 True,
       Logging (Compressed m max_h crf)} \<union> set (butlast evs)"
    by (cases evs) auto
  show ?thesis
    using assms ble unfolding ladder_run_def
    apply (intro conjI)
           apply (simp; fail)
          apply (simp; fail)
         apply (simp only: append_Cons append_Nil measured.simps bl; auto; fail)
        apply (simp; fail)
       apply (auto)[1]
      apply (auto)[1]
     apply (auto)[1]
    apply (auto)[1]
    done
qed

lemma shrink_loop_run:
  "shrink_loop env as cur w = (r, w') \<Longrightarrow>
   \<exists>evs. trace w' = trace w @ evs \<and> ladder_run as cur r evs"
proof (induction as arbitrary: cur w)
  case Nil
  then show ?case by (auto simp add: ladder_run_def)
next
  case (Cons a rest)
  obtain max_h crf where a: "a = (max_h, crf)" by (cases a)
  from Cons.prems [unfolded a] show ?case
  proof (cases rule: shrink_step)
    case (abort e)
    then show ?thesis by (simp add: ladder_run_def)
  next
    case (failed cand rc ex)
    then show ?thesis by (auto simp add: ladder_run_def a)
  next
    case (fits cand m)
    then show ?thesis by (auto simp add: ladder_run_def a)
  next
    case (large cand m w3)
    from Cons.IH [OF large(1)] obtain evs where
      e: "trace w' = trace w3 @ evs" "ladder_run rest cand r evs" by blast
    from ladder_run_large [OF e(2) large(2)] e(1) large(4) show ?thesis
      by (auto simp: a)
  qed
qed



section \<open>Names of the artifacts\<close>

lemma dots_append [simp]: "dots (xs @ ys) = dots xs + dots ys"
  by (simp add: dots_def)

lemma dots_str_nat: "dots (str_nat n) = 0"
proof (induction n rule: str_nat.induct)
  case (1 n)
  show ?case
  proof (cases "n < 10")
    case True
    then show ?thesis by (subst str_nat.simps) (simp add: dots_def)
  next
    case False
    with 1 show ?thesis by (subst str_nat.simps) (simp add: dots_def)
  qed
qed

lemma dots_str_int: "dots (str_int i) = 0"
  using dots_str_nat [of "nat (- i)"] dots_str_nat [of "nat i"]
  by (simp add: str_int_def dots_def)

lemma dots_crf_suffix: "dots (crf_suffix max_h crf) = 3"
proof -
  have "dots (ustr ''.'') = 1" "dots (ustr ''p.crf'') = 1" "dots (ustr ''.mp4'') = 1"
    by (simp_all add: dots_def ustr_def)
  then show ?thesis by (simp add: crf_suffix_def dots_str_int)
qed

lemma slash_str_nat: "47 \<notin> set (str_nat n)"
proof (induction n rule: str_nat.induct)
  case (1 n)
  show ?case
  proof (cases "n < 10")
    case True
    then show ?thesis by (subst str_nat.simps) simp
  next
    case False
    with 1 show ?thesis by (subst str_nat.simps) simp
  qed
qed

lemma name_suffix_split:
  assumes "name_suffix nm \<noteq> []"
  shows "\<exists>pre ext. nm = pre @ 46 # ext \<and> name_suffix nm = 46 # ext \<and> dots ext = 0"
proof -
  define tw where "tw = takeWhile (\<lambda>c. c \<noteq> 46) (rev nm)"
  define dw where "dw = dropWhile (\<lambda>c. c \<noteq> (46::nat)) (rev nm)"
  from assms have in46: "46 \<in> set nm" and ns: "name_suffix nm = 46 # rev tw"
    by (auto simp: name_suffix_def Let_def tw_def split: if_splits)
  have "rev nm = tw @ dw" by (simp add: tw_def dw_def)
  then have "rev (rev nm) = rev (tw @ dw)" by (rule arg_cong)
  then have nm: "nm = rev dw @ rev tw" by simp
  from in46 have ne: "dw \<noteq> []"
    by (simp add: dw_def dropWhile_eq_Nil_conv)
  then have "hd dw = 46"
    using hd_dropWhile [of "\<lambda>c. c \<noteq> 46" "rev nm"] by (simp add: dw_def)
  with ne obtain t where "dw = 46 # t" by (cases dw) auto
  then have nm': "nm = rev t @ 46 # rev tw" using nm by simp
  have "\<forall>c\<in>set tw. c \<noteq> 46"
    by (auto simp: tw_def dest: set_takeWhileD)
  then have "dots (rev tw) = 0" by (auto simp: dots_def filter_empty_conv)
  with nm' ns show ?thesis by blast
qed

lemma with_suffix_dots:
  assumes "with_suffix p (crf_suffix max_h crf) = Inr q"
  shows "dots (path_name p) < dots (path_name q)"
proof -
  let ?nm = "path_name p"
  let ?old = "name_suffix ?nm"
  let ?nm' = "if ?old = [] then ?nm @ crf_suffix max_h crf
              else take (length ?nm - length ?old) ?nm @ crf_suffix max_h crf"
  from assms have q: "q = p\<lparr>parts := butlast (parts p) @ [?nm']\<rparr>"
    by (auto simp: with_suffix_def Let_def split: if_splits)
  then have nq: "path_name q = ?nm'" by (simp add: path_name_def)
  show ?thesis
  proof (cases "?old = []")
    case True
    with nq show ?thesis by (simp add: dots_crf_suffix)
  next
    case False
    from name_suffix_split [OF False] obtain pre ext where
      s: "?nm = pre @ 46 # ext" "?old = 46 # ext" "dots ext = 0" by blast
    have "take (length ?nm - length ?old) ?nm = pre"
      by (simp add: s(2)) (simp add: s(1))
    with nq False have "dots (path_name q) = dots pre + 3" by (simp add: dots_crf_suffix)
    moreover have "dots ?nm = dots pre + 1"
      using s(3) by (subst s(1)) (simp add: dots_def)
    ultimately show ?thesis by simp
  qed
qed

lemma shrink_loop_outputs:
  "shrink_loop env as cur w = (r, w') \<Longrightarrow>
   \<exists>evs. trace w' = trace w @ evs \<and> distinct (outputs evs) \<and>
     (\<forall>d\<in>set (outputs evs). dots (path_name cur) < dots (path_name d))"
proof (induction as arbitrary: cur w)
  case Nil
  then show ?case by auto
next
  case (Cons a rest)
  obtain max_h crf where a: "a = (max_h, crf)" by (cases a)
  from Cons.prems [unfolded a] show ?case
  proof (cases rule: shrink_step)
    case (abort e)
    then show ?thesis by simp
  next
    case (failed cand rc ex)
    then show ?thesis using with_suffix_dots by auto
  next
    case (fits cand m)
    then show ?thesis using with_suffix_dots by auto
  next
    case (large cand m w3)
    from Cons.IH [OF large(1)] obtain evs where
      e: "trace w' = trace w3 @ evs" "distinct (outputs evs)"
         "\<forall>d\<in>set (outputs evs). dots (path_name cand) < dots (path_name d)" by blast
    from with_suffix_dots [OF large(3)] have lt: "dots (path_name cur) < dots (path_name cand)" .
    let ?evs = "[EditText (Compressing max_h crf), Transcode cur cand max_h crf 0 True,
          Logging (Compressed m max_h crf)] @ evs"
    have "trace w' = trace w @ ?evs" using e(1) large(4) by simp
    moreover have "distinct (outputs ?evs)" using e(2,3) by auto
    moreover have "\<forall>d\<in>set (outputs ?evs). dots (path_name cur) < dots (path_name d)"
      using e(3) lt by auto
    ultimately show ?thesis by blast
  qed
qed

section \<open>The shrink ladder\<close>

lemma shrink_until_ok_large:
  assumes "fs w filepath = Some n" and "of_int SAFE_LIMIT_MB < human_mb (int n)"
    and "shrink_until_ok env filepath w = (r, w')"
  shows "\<exists>evs. trace w' = trace w @ evs \<and> ladder_run attempts filepath r evs \<and>
            distinct (outputs evs) \<and> filepath \<notin> set (outputs evs)"
proof -
  from assms have loop: "shrink_loop env attempts filepath w = (r, w')"
    by (auto simp: shrink_until_ok_def st_size_def)
  from shrink_loop_run [OF loop] obtain evs where
    e: "trace w' = trace w @ evs" "ladder_run attempts filepath r evs" by blast
  from shrink_loop_outputs [OF loop] obtain evs' where
    e': "trace w' = trace w @ evs'" "distinct (outputs evs')"
        "\<forall>d\<in>set (outputs evs'). dots (path_name filepath) < dots (path_name d)" by blast
  from e(1) e'(1) have "evs' = evs" by simp
  with e' have "distinct (outputs evs)" "filepath \<notin> set (outputs evs)" by auto
  with e show ?thesis by auto
qed

lemma shrink_until_ok_run:
  assumes "shrink_until_ok env filepath w = (r, w')" and "trace w' = trace w @ evs"
  shows "evs = [] \<or>
         (ladder_run attempts filepath r evs \<and> distinct (outputs evs) \<and>
          filepath \<notin> set (outputs evs))"
proof (cases "fs w filepath")
  case None
  with assms show ?thesis by (auto simp: shrink_until_ok_def st_size_def)
next
  case (Some n)
  show ?thesis
  proof (cases "human_mb (int n) \<le> of_int SAFE_LIMIT_MB")
    case True
    with assms Some show ?thesis by (auto simp: shrink_until_ok_def st_size_def)
  next
    case False
    then have "of_int SAFE_LIMIT_MB < human_mb (int n)" by simp
    from shrink_until_ok_large [OF Some this assms(1)] assms(2) show ?thesis by auto
  qed
qed

text \<open>
  C2: an artifact of at most 1900 MB is returned as it is, and the world is left as it
  was; in particular the trace is not extended, so the engine is not run.
\<close>

theorem C2_small_input_unchanged:
  assumes "fs w filepath = Some n" and "int n \<le> 1900 * (1024 * 1024)"
  shows "shrink_until_ok env filepath w = (Inr filepath, w)"
proof -
  from assms(2) have "human_mb (int n) \<le> of_int SAFE_LIMIT_MB"
    by (simp add: human_mb_safe)
  with assms(1) show ?thesis by (simp add: shrink_until_ok_def st_size_def)
qed

theorem C2_witness:
  "fs (one_file (in_t ''a.mp4'') 1000) (in_t ''a.mp4'') = Some 1000 \<and>
   int 1000 \<le> 1900 * (1024 * 1024) \<and>
   shrink_until_ok (quiet_env 0 7) (in_t ''a.mp4'') (one_file (in_t ''a.mp4'') 1000) =
     (Inr (in_t ''a.mp4''), one_file (in_t ''a.mp4'') 1000)"
proof -
  have 1: "fs (one_file (in_t ''a.mp4'') 1000) (in_t ''a.mp4'') = Some 1000"
    by (simp add: one_file_def)
  have 2: "int 1000 \<le> 1900 * (1024 * 1024)" by simp
  from 1 2 C2_small_input_unchanged [OF 1 2, of "quiet_env 0 7"] show ?thesis by blast
qed


text \<open>
  C3: when four engine runs were made and none of them failed, the ladder returns the
  destination of the fourth; the four destinations differ from each other and from the
  input.
\<close>

theorem C3_last_attempt_returned:
  assumes "shrink_until_ok env filepath w = (r, w')" and "trace w' = trace w @ evs"
    and "length (invocations evs) = 4" and "\<forall>e\<in>set evs. \<not> failed_transcode e"
  shows "r = Inr (last (outputs evs)) \<and> length (outputs evs) = 4 \<and>
         distinct (filepath # outputs evs)"
proof -
  from shrink_until_ok_run [OF assms(1,2)] assms(3) have
    e: "ladder_run attempts filepath r evs"
       "distinct (outputs evs)" "filepath \<notin> set (outputs evs)"
    by auto
  have len: "length (outputs evs) = 4" using assms(3) by (simp add: length_outputs)
  then have ne: "outputs evs \<noteq> []" by auto
  have "\<not> (\<exists>x. r = Inl x)"
  proof
    assume "\<exists>x. r = Inl x"
    with e(1) have "length (invocations evs) < length attempts \<or>
        (evs \<noteq> [] \<and> failed_transcode (last evs))"
      by (auto simp: ladder_run_def)
    with assms(3,4) show False by (auto simp: attempts_def)
  qed
  then obtain q where q: "r = Inr q" by (cases r) auto
  with e(1) have "q = last (filepath # outputs evs)" by (auto simp: ladder_run_def)
  with ne q len e(2,3) show ?thesis by simp
qed

section \<open>Example runs of the ladder\<close>

lemma str_int_480: "str_int 480 = ustr ''480''"
  by (simp add: str_int_def str_nat.simps ustr_def)

lemma str_int_360: "str_int 360 = ustr ''360''"
  by (simp add: str_int_def str_nat.simps ustr_def)

lemma str_int_28: "str_int 28 = ustr ''28''"
  by (simp add: str_int_def str_nat.simps ustr_def)

lemma str_int_30: "str_int 30 = ustr ''30''"
  by (simp add: str_int_def str_nat.simps ustr_def)

lemmas suffix_eval =
  with_suffix_def crf_suffix_def str_int_480 str_int_360 str_int_28 str_int_30 in_t_def
  path_name_def name_suffix_def ustr_def Let_def

lemma with_suffix_1:
  "with_suffix (in_t ''a.mp4'') (crf_suffix 480 28) = Inr (in_t ''a.480p.crf28.mp4'')"
  by (simp add: suffix_eval)

lemma with_suffix_2:
  "with_suffix (in_t ''a.480p.crf28.mp4'') (crf_suffix 480 30) =
     Inr (in_t ''a.480p.crf28.480p.crf30.mp4'')"
  by (simp add: suffix_eval)

lemma with_suffix_3:
  "with_suffix (in_t ''a.480p.crf28.480p.crf30.mp4'') (crf_suffix 360 28) =
     Inr (in_t ''a.480p.crf28.480p.crf30.360p.crf28.mp4'')"
  by (simp add: suffix_eval)

lemma with_suffix_4:
  "with_suffix (in_t ''a.480p.crf28.480p.crf30.360p.crf28.mp4'') (crf_suffix 360 30) =
     Inr (in_t ''a.480p.crf28.480p.crf30.360p.crf28.360p.crf30.mp4'')"
  by (simp add: suffix_eval)

lemma path_str_1: "Path (path_str (in_t ''a.480p.crf28.mp4'')) = in_t ''a.480p.crf28.mp4''"
  by (simp add: Path_def path_str_def in_t_def ustr_def)

lemma path_str_2:
  "Path (path_str (in_t ''a.480p.crf28.480p.crf30.mp4'')) = in_t ''a.480p.crf28.480p.crf30.mp4''"
  by (simp add: Path_def path_str_def in_t_def ustr_def)

lemma path_str_3:
  "Path (path_str (in_t ''a.480p.crf28.480p.crf30.360p.crf28.mp4'')) =
     in_t ''a.480p.crf28.480p.crf30.360p.crf28.mp4''"
  by (simp add: Path_def path_str_def in_t_def ustr_def)

lemma path_str_4:
  "Path (path_str (in_t ''a.480p.crf28.480p.crf30.360p.crf28.360p.crf30.mp4'')) =
     in_t ''a.480p.crf28.480p.crf30.360p.crf28.360p.crf30.mp4''"
  by (simp add: Path_def path_str_def in_t_def ustr_def)

lemma in_t_neq: "in_t a = in_t b \<longleftrightarrow> a = b"
proof -
  have "inj (of_char :: char \<Rightarrow> nat)" by (rule injI) simp
  then show ?thesis by (simp add: in_t_def ustr_def inj_map_eq_map)
qed


lemma human_mb_example_2: "human_mb 3000000000 = 143051 / 50"
  by (simp add: human_mb_def round_half_even_def Let_def)

lemmas run_eval =
  shrink_until_ok_def one_file_def st_size_def SAFE_LIMIT_MB_def attempts_def
  MAX_HEIGHT_TARGET_def send_def quiet_env_def emit_def ffmpeg_compress_def ffmpeg_cmd_def
  path_exists_def Let_def in_t_neq
  with_suffix_1 with_suffix_2 with_suffix_3 with_suffix_4
  path_str_1 path_str_2 path_str_3 path_str_4


lemma run_all_four:
  "fst (shrink_until_ok (quiet_env 0 3000000000) (in_t ''a.mp4'')
          (one_file (in_t ''a.mp4'') 3000000000)) =
     Inr (in_t ''a.480p.crf28.480p.crf30.360p.crf28.360p.crf30.mp4'') \<and>
   trace (snd (shrink_until_ok (quiet_env 0 3000000000) (in_t ''a.mp4'')
          (one_file (in_t ''a.mp4'') 3000000000))) =
     [EditText (Compressing 480 28),
      Transcode (in_t ''a.mp4'') (in_t ''a.480p.crf28.mp4'') 480 28 0 True,
      Logging (Compressed (143051 / 50) 480 28),
      EditText (Compressing 480 30),
      Transcode (in_t ''a.480p.crf28.mp4'') (in_t ''a.480p.crf28.480p.crf30.mp4'') 480 30 0 True,
      Logging (Compressed (143051 / 50) 480 30),
      EditText (Compressing 360 28),
      Transcode (in_t ''a.480p.crf28.480p.crf30.mp4'')
        (in_t ''a.480p.crf28.480p.crf30.360p.crf28.mp4'') 360 28 0 True,
      Logging (Compressed (143051 / 50) 360 28),
      EditText (Compressing 360 30),
      Transcode (in_t ''a.480p.crf28.480p.crf30.360p.crf28.mp4'')
        (in_t ''a.480p.crf28.480p.crf30.360p.crf28.360p.crf30.mp4'') 360 30 0 True,
      Logging (Compressed (143051 / 50) 360 30)]"
  by (simp add: run_eval human_mb_example_2)

lemma run_engine_fails:
  "shrink_until_ok (quiet_env 1 0) (in_t ''a.mp4'') (one_file (in_t ''a.mp4'') 3000000000) =
    (Inl (RuntimeError (ustr ''ffmpeg compress failed'')),
     \<lparr>fs = [in_t ''a.mp4'' \<mapsto> 3000000000],
      trace = [EditText (Compressing 480 28),
               Transcode (in_t ''a.mp4'') (in_t ''a.480p.crf28.mp4'') 480 28 1 False]\<rparr>)"
  by (simp add: run_eval human_mb_example_2)



theorem C3_witness:
  "length (invocations four_rounds) = 4 \<and>
   filter failed_transcode four_rounds = [] \<and>
   fst (shrink_until_ok (quiet_env 0 3000000000) (in_t ''a.mp4'')
          (one_file (in_t ''a.mp4'') 3000000000)) =
     Inr (in_t ''a.480p.crf28.480p.crf30.360p.crf28.360p.crf30.mp4'') \<and>
   last (outputs four_rounds) = in_t ''a.480p.crf28.480p.crf30.360p.crf28.360p.crf30.mp4'' \<and>
   distinct (in_t ''a.mp4'' # outputs four_rounds)"
proof -
  let ?run = "shrink_until_ok (quiet_env 0 3000000000) (in_t ''a.mp4'')
          (one_file (in_t ''a.mp4'') 3000000000)"
  have 1: "?run = (fst ?run, snd ?run)" by simp
  have 2: "trace (snd ?run) = trace (one_file (in_t ''a.mp4'') 3000000000) @ four_rounds"
    using run_all_four by (simp add: four_rounds_def one_file_def)
  have 3: "length (invocations four_rounds) = 4" by (simp add: four_rounds_def)
  have 4: "\<forall>e\<in>set four_rounds. \<not> failed_transcode e" by (simp add: four_rounds_def)
  have 5: "filter failed_transcode four_rounds = []" by (simp add: four_rounds_def)
  have 6: "last (outputs four_rounds) =
      in_t ''a.480p.crf28.480p.crf30.360p.crf28.360p.crf30.mp4''"
    by (simp add: four_rounds_def)
  from C3_last_attempt_returned [OF 1 2 3 4] 3 5 6 show ?thesis by simp
qed

section \<open>The delivery selector\<close>

text \<open>
  C5, with the size as the code measures it (\<open>human_mb\<close>), for an artifact that exists.
  \<open>send_file\<close> first sends the chat action. If the transport refuses it, \<open>send_file\<close>
  raises that error and does nothing else: no message, no upload. Once it is accepted,
  \<open>send_file\<close> does one of three things: above 2000 it answers with the size-exceeded
  message and attempts no upload; at or below 50 it attempts one upload, as a video;
  otherwise it attempts one upload, as a document; both with the caption made from the
  title. A refused upload is followed by the log entry and the failure report only.
  In bytes, the measured size is above 2000 from 2097157243 bytes on, and at or below 50
  up to 52434042 bytes.
\<close>

theorem C5_delivery_by_size:
  assumes "fs w filepath = Some n"
    and "send_file env message filepath title w = (r, w')"
  shows "\<exists>evs. trace w' = trace w @ SendChatAction (chat_id message) UPLOAD_VIDEO # evs \<and>
     (case transport env w (SendChatAction (chat_id message) UPLOAD_VIDEO) of
        Some e \<Rightarrow> evs = [] \<and> r = Inl e
      | None \<Rightarrow>
          (if of_int TELEGRAM_LIMIT_MB < human_mb (int n) then
             evs = [Answer TooLarge] \<and> uploads evs = []
           else if human_mb (int n) \<le> of_int SEND_AS_VIDEO_THRESHOLD_MB then
             uploads evs = [AnswerVideo filepath (caption_of title)] \<and>
             (evs = [AnswerVideo filepath (caption_of title)] \<or>
              (\<exists>m. evs = [AnswerVideo filepath (caption_of title), Logging SendingFailed,
                           Answer (SendFailed m)]))
           else
             uploads evs = [AnswerDocument filepath (caption_of title)] \<and>
             (evs = [AnswerDocument filepath (caption_of title)] \<or>
              (\<exists>m. evs = [AnswerDocument filepath (caption_of title), Logging SendingFailed,
                           Answer (SendFailed m)])))) \<and>
     (of_int TELEGRAM_LIMIT_MB < human_mb (int n) \<longleftrightarrow> 2097157242 < n) \<and>
     (human_mb (int n) \<le> of_int SEND_AS_VIDEO_THRESHOLD_MB \<longleftrightarrow> n \<le> 52434042)"
proof -
  let ?a = "SendChatAction (chat_id message) UPLOAD_VIDEO"
  let ?w1 = "emit ?a w"
  have t1: "trace ?w1 = trace w @ [?a]" by (simp add: emit_def)
  have b1: "of_int TELEGRAM_LIMIT_MB < human_mb (int n) \<longleftrightarrow> 2097157242 < n"
    using human_mb_limit [of "int n"] by (simp add: not_le [symmetric])
  have b2: "human_mb (int n) \<le> of_int SEND_AS_VIDEO_THRESHOLD_MB \<longleftrightarrow> n \<le> 52434042"
    using human_mb_video [of "int n"] by simp
  have main: "\<exists>evs. trace w' = trace w @ ?a # evs \<and>
     (case transport env w ?a of
        Some e \<Rightarrow> evs = [] \<and> r = Inl e
      | None \<Rightarrow>
          (if of_int TELEGRAM_LIMIT_MB < human_mb (int n) then
             evs = [Answer TooLarge] \<and> uploads evs = []
           else if human_mb (int n) \<le> of_int SEND_AS_VIDEO_THRESHOLD_MB then
             uploads evs = [AnswerVideo filepath (caption_of title)] \<and>
             (evs = [AnswerVideo filepath (caption_of title)] \<or>
              (\<exists>m. evs = [AnswerVideo filepath (caption_of title), Logging SendingFailed,
                           Answer (SendFailed m)]))
           else
             uploads evs = [AnswerDocument filepath (caption_of title)] \<and>
             (evs = [AnswerDocument filepath (caption_of title)] \<or>
              (\<exists>m. evs = [AnswerDocument filepath (caption_of title), Logging SendingFailed,
                           Answer (SendFailed m)]))))"
  proof (cases "transport env w ?a")
    case (Some e)
    then have "send env ?a w = (Inl e, ?w1)" by (simp add: send_def)
    with assms have "r = Inl e" "w' = ?w1"
      by (simp_all add: send_file_def st_size_def Let_def)
    with t1 Some show ?thesis by simp
  next
    case None
    then have s1: "send env ?a w = (Inr (), ?w1)" by (simp add: send_def)
    show ?thesis
    proof (cases "of_int TELEGRAM_LIMIT_MB < human_mb (int n)")
      case True
      with assms s1 have "send env (Answer TooLarge) ?w1 = (r, w')"
        by (simp add: send_file_def st_size_def Let_def)
      from send_trace [OF this] t1 True None show ?thesis by simp
    next
      case False
      define u where "u = (if human_mb (int n) \<le> of_int SEND_AS_VIDEO_THRESHOLD_MB
          then AnswerVideo filepath (caption_of title)
          else AnswerDocument filepath (caption_of title))"
      obtain r2 w2 where s2: "send env u ?w1 = (r2, w2)" by (cases "send env u ?w1")
      from send_trace [OF s2] t1 have t2: "trace w2 = trace w @ [?a, u]" by simp
      have sf: "send_file env message filepath title w =
         (case (r2, w2) of (Inr x, w2) \<Rightarrow> (Inr x, w2)
          | (Inl e, w2) \<Rightarrow> send env (Answer (SendFailed (exn_str e)))
                             (emit (Logging SendingFailed) w2))"
        using assms(1) s1 s2 False
        by (simp add: send_file_def st_size_def Let_def u_def split: if_splits)
      have up: "uploads [u] = [u]" by (simp add: u_def)
      show ?thesis
      proof (cases r2)
        case (Inr x)
        with sf assms(2) have "w' = w2" by simp
        with t2 False up None show ?thesis by (auto simp: u_def)
      next
        case (Inl e)
        with sf assms(2) have "send env (Answer (SendFailed (exn_str e)))
                             (emit (Logging SendingFailed) w2) = (r, w')" by simp
        from send_trace [OF this] t2
        have "trace w' = trace w @ [?a, u, Logging SendingFailed, Answer (SendFailed (exn_str e))]"
          by (simp add: emit_def)
        with False up None show ?thesis by (auto simp: u_def)
      qed
    qed
  qed
  with b1 b2 show ?thesis by blast
qed

lemma human_mb_example_3: "human_mb 2097152001 = 2000"
  by (simp add: human_mb_def round_half_even_def Let_def)

lemma human_mb_example_4: "human_mb 52428801 = 50"
  by (simp add: human_mb_def round_half_even_def Let_def)

lemma human_mb_example_5: "human_mb 10485760 = 10"
  by (simp add: human_mb_def round_half_even_def Let_def)

lemmas send_file_eval =
  send_file_def one_file_def st_size_def send_def quiet_env_def emit_def Let_def
  TELEGRAM_LIMIT_MB_def SEND_AS_VIDEO_THRESHOLD_MB_def a_message_def

text \<open>
  As the claim is written, with the size in bytes: a file of 2000 MB and one byte is
  uploaded (as a document), and a file of 50 MB and one byte is sent as a video.
\<close>

theorem C5_counterexample:
  "(2000 * (1024 * 1024) :: int) < int 2097152001 \<and>
   send_file (quiet_env 0 0) a_message (in_t ''a.mp4'') (ustr ''T'')
       (one_file (in_t ''a.mp4'') 2097152001) =
     (Inr (),
      \<lparr>fs = [in_t ''a.mp4'' \<mapsto> 2097152001],
       trace = [SendChatAction 7 UPLOAD_VIDEO,
                AnswerDocument (in_t ''a.mp4'') (ustr ''<b>T</b>'')]\<rparr>) \<and>
   (50 * (1024 * 1024) :: int) < int 52428801 \<and> int 52428801 < 2000 * (1024 * 1024) \<and>
   send_file (quiet_env 0 0) a_message (in_t ''a.mp4'') (ustr ''T'')
       (one_file (in_t ''a.mp4'') 52428801) =
     (Inr (),
      \<lparr>fs = [in_t ''a.mp4'' \<mapsto> 52428801],
       trace = [SendChatAction 7 UPLOAD_VIDEO,
                AnswerVideo (in_t ''a.mp4'') (ustr ''<b>T</b>'')]\<rparr>)"
  by (simp add: send_file_eval human_mb_example_3 human_mb_example_4 caption_of_def ustr_def)

theorem C5_witness:
  "fs (one_file (in_t ''a.mp4'') 10485760) (in_t ''a.mp4'') = Some 10485760 \<and>
   transport (quiet_env 0 0) (one_file (in_t ''a.mp4'') 10485760)
     (SendChatAction (chat_id a_message) UPLOAD_VIDEO) = None \<and>
   human_mb (int 10485760) \<le> of_int SEND_AS_VIDEO_THRESHOLD_MB \<and>
   (\<exists>evs. trace (snd (send_file (quiet_env 0 0) a_message (in_t ''a.mp4'') (ustr ''T'')
                        (one_file (in_t ''a.mp4'') 10485760))) =
            trace (one_file (in_t ''a.mp4'') 10485760) @
              SendChatAction (chat_id a_message) UPLOAD_VIDEO # evs \<and>
          uploads evs = [AnswerVideo (in_t ''a.mp4'') (caption_of (ustr ''T''))]) \<and>
   transport deaf_env (one_file (in_t ''a.mp4'') 10485760)
     (SendChatAction (chat_id a_message) UPLOAD_VIDEO) = Some (Raised (ustr ''refused'')) \<and>
   trace (snd (send_file deaf_env a_message (in_t ''a.mp4'') (ustr ''T'')
                 (one_file (in_t ''a.mp4'') 10485760))) =
     trace (one_file (in_t ''a.mp4'') 10485760) @
       [SendChatAction (chat_id a_message) UPLOAD_VIDEO] \<and>
   fst (send_file deaf_env a_message (in_t ''a.mp4'') (ustr ''T'')
          (one_file (in_t ''a.mp4'') 10485760)) = Inl (Raised (ustr ''refused''))"
proof -
  let ?w = "one_file (in_t ''a.mp4'') 10485760"
  let ?a = "SendChatAction (chat_id a_message) UPLOAD_VIDEO"
  let ?run = "send_file (quiet_env 0 0) a_message (in_t ''a.mp4'') (ustr ''T'') ?w"
  let ?deaf = "send_file deaf_env a_message (in_t ''a.mp4'') (ustr ''T'') ?w"
  have 1: "fs ?w (in_t ''a.mp4'') = Some 10485760" by (simp add: one_file_def)
  have 2: "transport (quiet_env 0 0) ?w ?a = None"
    by (simp add: quiet_env_def)
  have 3: "?run = (fst ?run, snd ?run)" by simp
  have 4: "human_mb (int 10485760) \<le> of_int SEND_AS_VIDEO_THRESHOLD_MB"
    by (simp add: human_mb_example_5 SEND_AS_VIDEO_THRESHOLD_MB_def)
  have 5: "\<not> of_int TELEGRAM_LIMIT_MB < human_mb (int 10485760)"
    by (simp add: human_mb_example_5 TELEGRAM_LIMIT_MB_def)
  have 6: "transport deaf_env ?w ?a = Some (Raised (ustr ''refused''))"
    by (simp add: deaf_env_def)
  have 7: "?deaf = (fst ?deaf, snd ?deaf)" by simp
  from C5_delivery_by_size [OF 1 3] 2 4 5 obtain evs where
    "trace (snd ?run) = trace ?w @ ?a # evs"
    "uploads evs = [AnswerVideo (in_t ''a.mp4'') (caption_of (ustr ''T''))]"
    by auto
  then have a: "\<exists>evs. trace (snd ?run) = trace ?w @ ?a # evs \<and>
      uploads evs = [AnswerVideo (in_t ''a.mp4'') (caption_of (ustr ''T''))]" by blast
  from C5_delivery_by_size [OF 1 7] 6 have
    b: "trace (snd ?deaf) = trace ?w @ [?a]" "fst ?deaf = Inl (Raised (ustr ''refused''))"
    by auto
  show ?thesis
    apply (intro conjI)
          apply (rule 1)
         apply (rule 2)
        apply (rule 4)
       apply (rule a)
      apply (rule 6)
     apply (rule b(1))
    apply (rule b(2))
    done
qed

section \<open>White space around a link\<close>

lemma casefold_space: "isspace c \<Longrightarrow> casefold c = c"
  by (auto simp: isspace_def casefold_def)

lemma solid_no_space: "solid p \<Longrightarrow> isspace c \<Longrightarrow> \<not> lit_match ic p c"
  by (auto simp: solid_def lit_match_def casefold_space)

lemma rx_match_suffix: "x \<in> set (rx_match ic r s) \<Longrightarrow> suffix x s"
proof (induction r arbitrary: s x)
  case Eps
  then show ?case by simp
next
  case (Lit p)
  show ?case
  proof (cases s)
    case Nil
    with Lit show ?thesis by simp
  next
    case (Cons c cs)
    with Lit show ?thesis by (simp add: suffix_Cons split: if_splits)
  qed
next
  case (Seq r1 r2)
  from Seq.prems obtain y where y: "y \<in> set (rx_match ic r1 s)" "x \<in> set (rx_match ic r2 y)"
    by auto
  from Seq.IH(1) [OF y(1)] Seq.IH(2) [OF y(2)] show ?case
    by (rule suffix_order.trans [rotated])
next
  case (Alt r1 r2)
  then show ?case by auto
next
  case (Opt r)
  then show ?case by auto
qed

lemma rx_match_empty:
  "s \<in> set (rx_match ic r s) \<Longrightarrow> t \<in> set (rx_match ic r t)"
proof (induction r arbitrary: s t)
  case Eps
  then show ?case by simp
next
  case (Lit p)
  show ?case
  proof (cases s)
    case Nil
    with Lit show ?thesis by simp
  next
    case (Cons c cs)
    with Lit show ?thesis by (simp split: if_splits)
  qed
next
  case (Seq r1 r2)
  from Seq.prems obtain y where y: "y \<in> set (rx_match ic r1 s)" "s \<in> set (rx_match ic r2 y)"
    by auto
  from y have "suffix y s" "suffix s y" by (auto dest: rx_match_suffix)
  then have "y = s" by (rule suffix_order.antisym)
  with y have "t \<in> set (rx_match ic r1 t)" "t \<in> set (rx_match ic r2 t)"
    using Seq.IH by blast+
  then show ?case by auto
next
  case (Alt r1 r2)
  then show ?case by auto
next
  case (Opt r)
  then show ?case by auto
qed

lemma rx_match_space_first:
  "isspace c \<Longrightarrow> solid_rx r \<Longrightarrow> x \<in> set (rx_match ic r (c # cs)) \<Longrightarrow> x = c # cs"
proof (induction r arbitrary: x)
  case (Lit p)
  then show ?case by (auto simp: solid_no_space split: if_splits)
qed auto

lemma rx_match_space_last:
  "isspace c \<Longrightarrow> solid_rx r \<Longrightarrow>
   rx_match ic r (s @ [c]) = map (\<lambda>t. t @ [c]) (rx_match ic r s)"
proof (induction r arbitrary: s)
  case (Lit p)
  then show ?case by (cases s) (auto simp: solid_no_space)
next
  case (Seq r1 r2)
  then show ?case by (simp add: map_concat comp_def)
qed auto

lemma rx_match_search: "rx_match ic r s \<noteq> [] \<Longrightarrow> re_search_from ic r s"
  by (cases s) auto

lemma search_space_first:
  assumes "isspace c" "solid_rx r"
  shows "re_search_from ic r (c # cs) = re_search_from ic r cs"
proof -
  have "re_search_from ic r cs" if "rx_match ic r (c # cs) \<noteq> []"
  proof -
    from that obtain x where x: "x \<in> set (rx_match ic r (c # cs))"
      by (cases "rx_match ic r (c # cs)") auto
    with assms have "x = c # cs" by (rule rx_match_space_first)
    with x have "cs \<in> set (rx_match ic r cs)" by (auto dest: rx_match_empty)
    then have "rx_match ic r cs \<noteq> []" by auto
    then show ?thesis by (rule rx_match_search)
  qed
  then show ?thesis by auto
qed

lemma search_space_last:
  assumes "isspace c" "solid_rx r"
  shows "re_search_from ic r (s @ [c]) = re_search_from ic r s"
proof (induction s)
  case Nil
  from rx_match_space_last [OF assms, of ic "[]"] show ?case by simp
next
  case (Cons x xs)
  from rx_match_space_last [OF assms, of ic "x # xs"] Cons show ?case by simp
qed

lemma search_dropWhile:
  assumes "solid_rx r"
  shows "re_search_from ic r (dropWhile isspace s) = re_search_from ic r s"
proof (induction s)
  case Nil
  show ?case by simp
next
  case (Cons c cs)
  show ?case
  proof (cases "isspace c")
    case True
    then have "dropWhile isspace (c # cs) = dropWhile isspace cs" by simp
    with Cons search_space_first [OF True assms, of ic cs] show ?thesis by (simp only:)
  next
    case False
    then have "dropWhile isspace (c # cs) = c # cs" by simp
    then show ?thesis by (simp only:)
  qed
qed

lemma search_strip:
  assumes "solid_rx r"
  shows "re_search_from ic r (strip s) = re_search_from ic r s"
proof -
  have "re_search_from ic r (rev (dropWhile isspace (rev t))) = re_search_from ic r t" for t
  proof (induction t rule: rev_induct)
    case Nil
    show ?case by simp
  next
    case (snoc c cs)
    show ?case
    proof (cases "isspace c")
      case True
      then have "rev (dropWhile isspace (rev (cs @ [c]))) = rev (dropWhile isspace (rev cs))"
        by simp
      with snoc search_space_last [OF True assms, of ic cs] show ?thesis by (simp only:)
    next
      case False
      then have "rev (dropWhile isspace (rev (cs @ [c]))) = cs @ [c]" by simp
      then show ?thesis by (simp only:)
    qed
  qed
  then show ?thesis by (simp add: strip_def search_dropWhile assms)
qed

lemma solid_lits: "list_all (\<lambda>c. solid (of_char c)) cs \<Longrightarrow> solid_rx (lits cs)"
  by (induction cs) simp_all

lemma solid_scheme_www: "solid_rx scheme_www"
  by (simp add: scheme_www_def solid_def isspace_def casefold_def)

lemma search_youtube_strip: "re_search YOUTUBE_RE (strip s) = re_search YOUTUBE_RE s"
proof -
  have "solid_rx (Seq scheme_www
        (Alt (Seq (lits ''youtube.com/'') (Alt (lits ''watch?v='') (lits ''shorts/'')))
             (lits ''youtu.be/'')))"
    using solid_scheme_www by (simp add: solid_def isspace_def casefold_def)
  then show ?thesis by (simp add: YOUTUBE_RE_def search_strip)
qed

lemma search_instagram_strip: "re_search INSTAGRAM_RE (strip s) = re_search INSTAGRAM_RE s"
proof -
  have "solid_rx (Seq scheme_www
        (Seq (lits ''instagram.com/'')
           (Seq (Alt (lits ''reel'') (Alt (lits ''p'') (lits ''tv''))) (lits ''/''))))"
    using solid_scheme_www by (simp add: solid_def isspace_def casefold_def)
  then show ?thesis by (simp add: INSTAGRAM_RE_def search_strip)
qed

lemma is_supported_url_strip: "is_supported_url (strip s) = is_supported_url s"
  by (simp add: is_supported_url_def search_youtube_strip search_instagram_strip)

lemma platform_name_strip: "platform_name (strip s) = platform_name s"
  by (simp add: platform_name_def search_youtube_strip search_instagram_strip)

section \<open>Texts that are no supported link\<close>

text \<open>
  C8: when the text of the message matches neither pattern, \<open>handle_url\<close> returns, for
  any value of the semaphore (also 0, so it does not wait for a permit) and leaves that
  value as it is; the world is the one before with the rejection reply added to the
  trace: the file system is unchanged (no scratch directory) and nothing is extracted.
  What it returns is what sending the reply returns.
\<close>

theorem C8_unsupported_rejected:
  assumes "(case msg_text message of None \<Rightarrow> [] | Some t \<Rightarrow> t) = t"
    and "\<not> re_search YOUTUBE_RE t" and "\<not> re_search INSTAGRAM_RE t"
  shows "handle_url env message permits w =
           Some (fst (send env (Answer InvalidLink) w), permits,
                 w\<lparr>trace := trace w @ [Answer InvalidLink]\<rparr>)"
proof -
  from assms have "\<not> is_supported_url (strip (case msg_text message of None \<Rightarrow> [] | Some t \<Rightarrow> t))"
    by (simp add: is_supported_url_strip) (simp add: is_supported_url_def)
  then show ?thesis
    by (simp add: handle_url_def Let_def send_def emit_def split: option.splits)
qed

theorem C8_witness:
  "(case msg_text \<lparr>msg_text = Some (ustr ''hello''), chat_id = 7\<rparr> of None \<Rightarrow> [] | Some t \<Rightarrow> t) =
     ustr ''hello'' \<and>
   \<not> re_search YOUTUBE_RE (ustr ''hello'') \<and> \<not> re_search INSTAGRAM_RE (ustr ''hello'') \<and>
   handle_url (quiet_env 0 0) \<lparr>msg_text = Some (ustr ''hello''), chat_id = 7\<rparr> 0
       (one_file (in_t ''a.mp4'') 5) =
     Some (Inr (), 0, \<lparr>fs = [in_t ''a.mp4'' \<mapsto> 5], trace = [Answer InvalidLink]\<rparr>)"
proof -
  have 1: "(case msg_text \<lparr>msg_text = Some (ustr ''hello''), chat_id = 7\<rparr> of
      None \<Rightarrow> [] | Some t \<Rightarrow> t) = ustr ''hello''" by simp
  have 2: "\<not> re_search YOUTUBE_RE (ustr ''hello'')" by (simp add: url_eval)
  have 3: "\<not> re_search INSTAGRAM_RE (ustr ''hello'')" by (simp add: url_eval)
  from C8_unsupported_rejected [OF 1 2 3, of "quiet_env 0 0" 0 "one_file (in_t ''a.mp4'') 5"]
  have "handle_url (quiet_env 0 0) \<lparr>msg_text = Some (ustr ''hello''), chat_id = 7\<rparr> 0
       (one_file (in_t ''a.mp4'') 5) =
     Some (Inr (), 0, \<lparr>fs = [in_t ''a.mp4'' \<mapsto> 5], trace = [Answer InvalidLink]\<rparr>)"
    by (simp add: send_def quiet_env_def one_file_def)
  with 1 2 3 show ?thesis by blast
qed

section \<open>What a job adds to the trace\<close>

lemma extends_refl: "extends P w w"
  by (simp add: extends_def)

lemma extends_same_trace: "trace w' = trace w \<Longrightarrow> extends P w w'"
  by (simp add: extends_def)

lemma extends_trans: "extends P w w1 \<Longrightarrow> extends P w1 w2 \<Longrightarrow> extends P w w2"
  by (auto simp: extends_def)

lemma extends_events: "trace w' = trace w @ evs \<Longrightarrow> list_all P evs \<Longrightarrow> extends P w w'"
  by (auto simp: extends_def)

lemma extends_emit: "P ev \<Longrightarrow> extends P w (emit ev w)"
  by (simp add: extends_def emit_def)

lemma send_extends: "send env ev w = (r, w') \<Longrightarrow> P ev \<Longrightarrow> extends P w w'"
  by (auto dest!: send_trace simp: extends_def)

lemma extends_mono: "extends P w w' \<Longrightarrow> (\<And>e. P e \<Longrightarrow> Q e) \<Longrightarrow> extends Q w w'"
  by (auto simp: extends_def list_all_iff)

lemma ladder_event_body: "ladder_event e \<Longrightarrow> body_event opts url e"
  by (induction e rule: ladder_event.induct) simp_all

lemma chat_event_body: "chat_event e \<Longrightarrow> body_event opts url e"
  by (cases e) simp_all

lemma shrink_loop_ladder:
  "shrink_loop env as cur w = (r, w') \<Longrightarrow> extends ladder_event w w'"
proof (induction as arbitrary: cur w)
  case Nil
  then show ?case by (simp add: extends_refl)
next
  case (Cons a rest)
  obtain max_h crf where a: "a = (max_h, crf)" by (cases a)
  from Cons.prems [unfolded a] show ?case
  proof (cases rule: shrink_step)
    case (abort e)
    then show ?thesis by (auto intro: extends_events)
  next
    case (failed cand rc ex)
    then show ?thesis by (auto intro: extends_events)
  next
    case (fits cand m)
    then show ?thesis by (auto intro: extends_events)
  next
    case (large cand m w3)
    from large(3,4) have "extends ladder_event w w3" by (auto intro: extends_events)
    with Cons.IH [OF large(1)] show ?thesis by (rule extends_trans [rotated])
  qed
qed

lemma shrink_until_ok_ladder:
  "shrink_until_ok env filepath w = (r, w') \<Longrightarrow> extends ladder_event w w'"
  by (auto simp: shrink_until_ok_def extends_refl split: sum.splits if_splits
           intro: shrink_loop_ladder)

lemma shrink_until_ok_extends:
  "shrink_until_ok env filepath w = (r, w') \<Longrightarrow> extends (body_event opts url) w w'"
  by (erule extends_mono [OF shrink_until_ok_ladder]) (rule ladder_event_body)

lemma send_file_chat:
  assumes "send_file env message filepath title w = (r, w')"
  shows "extends chat_event w w'"
proof (cases "fs w filepath")
  case None
  with assms show ?thesis by (simp add: send_file_def st_size_def extends_refl)
next
  case (Some n)
  let ?a = "SendChatAction (chat_id message) UPLOAD_VIDEO"
  obtain r1 w1 where s1: "send env ?a w = (r1, w1)" by (cases "send env ?a w")
  then have e1: "extends chat_event w w1" by (rule send_extends) simp
  show ?thesis
  proof (cases r1)
    case (Inl e)
    with assms Some s1 have "w' = w1" by (simp add: send_file_def st_size_def Let_def)
    with e1 show ?thesis by simp
  next
    case r1: (Inr x)
    show ?thesis
    proof (cases "of_int TELEGRAM_LIMIT_MB < human_mb (int n)")
      case True
      with assms Some s1 r1 have "send env (Answer TooLarge) w1 = (r, w')"
        by (simp add: send_file_def st_size_def Let_def)
      then have "extends chat_event w1 w'" by (rule send_extends) simp
      with e1 show ?thesis by (rule extends_trans)
    next
      case False
      define u where "u = (if human_mb (int n) \<le> of_int SEND_AS_VIDEO_THRESHOLD_MB
          then AnswerVideo filepath (caption_of title)
          else AnswerDocument filepath (caption_of title))"
      have bu: "chat_event u" by (simp add: u_def)
      obtain r2 w2 where s2: "send env u w1 = (r2, w2)" by (cases "send env u w1")
      then have e2: "extends chat_event w1 w2" using bu by (rule send_extends)
      have sf: "send_file env message filepath title w =
         (case (r2, w2) of (Inr x, w2) \<Rightarrow> (Inr x, w2)
          | (Inl e, w2) \<Rightarrow> send env (Answer (SendFailed (exn_str e)))
                             (emit (Logging SendingFailed) w2))"
        using Some s1 r1 s2 False
        by (simp add: send_file_def st_size_def Let_def u_def split: if_splits)
      show ?thesis
      proof (cases r2)
        case (Inr y)
        with sf assms have "w' = w2" by simp
        with e1 e2 show ?thesis by (auto intro: extends_trans)
      next
        case (Inl e)
        with sf assms have "send env (Answer (SendFailed (exn_str e)))
                             (emit (Logging SendingFailed) w2) = (r, w')" by simp
        then have "extends chat_event (emit (Logging SendingFailed) w2) w'"
          by (rule send_extends) simp
        moreover have "extends chat_event w2 (emit (Logging SendingFailed) w2)"
          by (rule extends_emit) simp
        ultimately show ?thesis using e1 e2 by (blast intro: extends_trans)
      qed
    qed
  qed
qed

lemma send_file_extends:
  "send_file env message filepath title w = (r, w') \<Longrightarrow> extends (body_event opts url) w w'"
  by (erule extends_mono [OF send_file_chat]) (rule chat_event_body)

lemma extract_trace:
  "extract' env opts url w = (r, w') \<Longrightarrow> trace w' = trace w @ [ExtractInfo opts url]"
  by (auto simp: extract'_def Let_def emit_def split: sum.splits prod.splits info.splits)

lemma extract_extends:
  assumes "extract' env opts url w = (r, w')"
  shows "extends (body_event opts url) w w'"
proof -
  have "trace w' = trace w @ [ExtractInfo opts url]"
    using assms
    by (auto simp: extract'_def Let_def emit_def
             split: sum.splits prod.splits info.splits)
  then show ?thesis by (rule extends_events) simp
qed

lemma process_after_extract:
  assumes s1: "send env (SendChatAction (chat_id message) RECORD_VIDEO) w = (Inr x, w1)"
    and s2: "extract' env opts url w1 = (r2, w2)"
    and p: "process env message url plat opts w = (r, w')"
  shows "extends (body_event opts url) w2 w'"
proof -
  let ?P = "body_event opts url"
  show ?thesis
  proof (cases r2)
    case (Inl e)
    with p s1 s2 have "w' = w2" by (simp add: process_def)
    then show ?thesis by (simp add: extends_refl)
  next
    case (Inr pt)
    obtain filepath title where pt: "pt = (filepath, title)" by (cases pt)
    show ?thesis
    proof (cases "fs w2 filepath")
      case None
      with p s1 s2 Inr pt have "w' = w2"
        by (simp add: process_def path_exists_def)
      then show ?thesis by (simp add: extends_refl)
    next
      case (Some n)
      let ?w3 = "emit (Logging (Downloaded (human_mb (int n)) plat)) w2"
      have e3: "extends ?P w2 ?w3" by (rule extends_emit) simp
      obtain r4 w4 where s4: "(if of_int SAFE_LIMIT_MB < human_mb (int n)
          then shrink_until_ok env filepath ?w3 else (Inr filepath, ?w3)) = (r4, w4)"
        by (cases "if of_int SAFE_LIMIT_MB < human_mb (int n)
          then shrink_until_ok env filepath ?w3 else (Inr filepath, ?w3)")
      then have "extends ?P ?w3 w4"
        by (auto split: if_splits intro: shrink_until_ok_extends extends_refl)
      with e3 have e4: "extends ?P w2 w4" by (rule extends_trans)
      have pr: "process env message url plat opts w =
         (case (r4, w4) of (Inl e, w4) \<Rightarrow> (Inl e, w4)
          | (Inr filepath', w4) \<Rightarrow>
              (case send env (EditText Uploading) w4 of
                 (Inl e, w5) \<Rightarrow> (Inl e, w5)
               | (Inr _, w5) \<Rightarrow> send_file env message filepath' title w5))"
        using s1 s2 Inr pt Some s4
        by (simp add: process_def path_exists_def st_size_def Let_def)
      show ?thesis
      proof (cases r4)
        case (Inl e)
        with pr p have "w' = w4" by simp
        with e4 show ?thesis by simp
      next
        case r4: (Inr filepath')
        obtain r5 w5 where s5: "send env (EditText Uploading) w4 = (r5, w5)"
          by (cases "send env (EditText Uploading) w4")
        then have "extends ?P w4 w5" by (rule send_extends) simp
        with e4 have e5: "extends ?P w2 w5" by (rule extends_trans)
        show ?thesis
        proof (cases r5)
          case (Inl e)
          with pr p r4 s5 have "w' = w5" by simp
          with e5 show ?thesis by simp
        next
          case (Inr y)
          with pr p r4 s5 have "send_file env message filepath' title w5 = (r, w')"
            by simp
          then have "extends ?P w5 w'" by (rule send_file_extends)
          with e5 show ?thesis by (rule extends_trans)
        qed
      qed
    qed
  qed
qed

lemma process_extends:
  assumes "process env message url plat opts w = (r, w')"
  shows "extends (body_event opts url) w w'"
proof -
  let ?P = "body_event opts url"
  let ?a = "SendChatAction (chat_id message) RECORD_VIDEO"
  obtain r1 w1 where s1: "send env ?a w = (r1, w1)" by (cases "send env ?a w")
  then have e1: "extends ?P w w1" by (rule send_extends) simp
  show ?thesis
  proof (cases r1)
    case (Inl e)
    with assms s1 have "w' = w1" by (simp add: process_def)
    with e1 show ?thesis by simp
  next
    case r1: (Inr x)
    obtain r2 w2 where s2: "extract' env opts url w1 = (r2, w2)"
      by (cases "extract' env opts url w1")
    then have "extends ?P w1 w2" by (rule extract_extends)
    with e1 have "extends ?P w w2" by (rule extends_trans)
    moreover from s1 [unfolded r1] s2 assms have "extends ?P w2 w'"
      by (rule process_after_extract)
    ultimately show ?thesis by (rule extends_trans)
  qed
qed

lemma guarded_extends:
  assumes "guarded env message url plat opts w = (r, w')"
  shows "extends (body_event opts url) w w'"
proof -
  let ?P = "body_event opts url"
  obtain r1 w1 where p: "process env message url plat opts w = (r1, w1)"
    by (cases "process env message url plat opts w")
  then have e1: "extends ?P w w1" by (rule process_extends)
  show ?thesis
  proof (cases r1)
    case (Inr x)
    with assms p have "w' = w1" by (simp add: guarded_def)
    with e1 show ?thesis by simp
  next
    case (Inl e)
    with assms p have "send env (EditText (DownloadFailed (exn_str e)))
        (emit (Logging ProcessFailed) w1) = (r, w')" by (simp add: guarded_def)
    then have "extends ?P (emit (Logging ProcessFailed) w1) w'" by (rule send_extends) simp
    moreover have "extends ?P w1 (emit (Logging ProcessFailed) w1)" by (rule extends_emit) simp
    ultimately show ?thesis using e1 by (blast intro: extends_trans)
  qed
qed

text \<open>Once the chat action is accepted, extraction is run, whatever the options hold.\<close>

lemma process_extracts:
  assumes "transport env w (SendChatAction (chat_id message) RECORD_VIDEO) = None"
    and "process env message url plat opts w = (r, w')"
  shows "\<exists>rest. trace w' = trace w @
           SendChatAction (chat_id message) RECORD_VIDEO # ExtractInfo opts url # rest"
proof -
  let ?a = "SendChatAction (chat_id message) RECORD_VIDEO"
  from assms(1) have s1: "send env ?a w = (Inr (), emit ?a w)" by (simp add: send_def)
  obtain r2 w2 where s2: "extract' env opts url (emit ?a w) = (r2, w2)"
    by (cases "extract' env opts url (emit ?a w)")
  from extract_trace [OF s2] have "trace w2 = trace w @ [?a, ExtractInfo opts url]"
    by (simp add: emit_def)
  moreover from process_after_extract [OF s1 s2 assms(2)] obtain rest where
    "trace w' = trace w2 @ rest" by (auto simp: extends_def)
  ultimately show ?thesis by simp
qed

lemma guarded_extracts:
  assumes "transport env w (SendChatAction (chat_id message) RECORD_VIDEO) = None"
    and "guarded env message url plat opts w = (r, w')"
  shows "\<exists>rest. trace w' = trace w @
           SendChatAction (chat_id message) RECORD_VIDEO # ExtractInfo opts url # rest"
proof -
  obtain r1 w1 where p: "process env message url plat opts w = (r1, w1)"
    by (cases "process env message url plat opts w")
  from process_extracts [OF assms(1) p] obtain rest where
    t1: "trace w1 = trace w @
           SendChatAction (chat_id message) RECORD_VIDEO # ExtractInfo opts url # rest"
    by blast
  show ?thesis
  proof (cases r1)
    case (Inr x)
    with assms(2) p have "w' = w1" by (simp add: guarded_def)
    with t1 show ?thesis by simp
  next
    case (Inl e)
    with assms(2) p have "send env (EditText (DownloadFailed (exn_str e)))
        (emit (Logging ProcessFailed) w1) = (r, w')" by (simp add: guarded_def)
    from send_trace [OF this] t1 show ?thesis by (simp add: emit_def)
  qed
qed

text \<open>The two ways the block under the semaphore can go: it ends before a scratch
  directory exists, or it makes one, runs the job and removes it.\<close>

lemma pipeline_cases:
  assumes "pipeline env message url w = (r, w')"
  obtains
    (early) "trace w' = trace w @ [Answer (Downloading (platform_name url))]" "fs w' = fs w"
  | (job) td evs w2 w3 where
      "trace w' = trace w @ Answer (Downloading (platform_name url)) # Mkdtemp td # evs @ [Rmtree td]"
      "list_all (body_event (build_ydl_opts env (Path td)
          (platform_name url = ustr ''Instagram'') MAX_HEIGHT_TARGET) url) evs"
      "\<forall>p. within_dir (Path td) p \<longrightarrow> fs w' p = None"
      "guarded env message url (platform_name url) (build_ydl_opts env (Path td)
          (platform_name url = ustr ''Instagram'') MAX_HEIGHT_TARGET) w2 = (r, w3)"
      "trace w3 = trace w2 @ evs"
proof -
  let ?plat = "platform_name url"
  obtain r1 w1 where s1: "send env (Answer (Downloading ?plat)) w = (r1, w1)"
    by (cases "send env (Answer (Downloading ?plat)) w")
  from send_trace [OF s1] have t1: "trace w1 = trace w @ [Answer (Downloading ?plat)]"
    and f1: "fs w1 = fs w" by simp_all
  show thesis
  proof (cases r1)
    case (Inl e)
    with assms s1 have "w' = w1" by (simp add: pipeline_def Let_def)
    with t1 f1 show thesis by (auto intro: early)
  next
    case r1: (Inr x)
    show thesis
    proof (cases "mkdtemp env w1")
      case (Inl e)
      with assms s1 r1 have "w' = w1" by (simp add: pipeline_def Let_def)
      with t1 f1 show thesis by (auto intro: early)
    next
      case (Inr tdsz)
      obtain td sz where tdsz: "tdsz = (td, sz)" by (cases tdsz)
      let ?w2 = "emit (Mkdtemp td) (w1\<lparr>fs := (fs w1)(Path td \<mapsto> sz)\<rparr>)"
      let ?opts = "build_ydl_opts env (Path td) (?plat = ustr ''Instagram'') MAX_HEIGHT_TARGET"
      obtain r3 w3 where g: "guarded env message url ?plat ?opts ?w2 = (r3, w3)"
        by (cases "guarded env message url ?plat ?opts ?w2")
      from guarded_extends [OF g] obtain evs where
        evs: "trace w3 = trace ?w2 @ evs" "list_all (body_event ?opts url) evs"
        by (auto simp: extends_def)
      from assms s1 r1 Inr tdsz g have w': "w' = emit (Rmtree td) (rmtree (Path td) w3)"
        and r3: "r3 = r"
        by (simp_all add: pipeline_def Let_def)
      have "trace w' = trace w @ Answer (Downloading ?plat) # Mkdtemp td # evs @ [Rmtree td]"
        using evs(1) t1 by (simp add: w' emit_def rmtree_def)
      moreover have "\<forall>p. within_dir (Path td) p \<longrightarrow> fs w' p = None"
        by (simp add: w' emit_def rmtree_def)
      ultimately show thesis using evs g r3 by (blast intro: job)
    qed
  qed
qed

lemma with_suffix_within_dir:
  assumes "with_suffix src sfx = Inr dst" and "within_dir d src" and "src \<noteq> d"
  shows "within_dir d dst"
proof -
  from assms(1) obtain nm where dst: "dst = src\<lparr>parts := butlast (parts src) @ [nm]\<rparr>"
    and ne: "parts src \<noteq> []"
    by (auto simp: with_suffix_def Let_def path_name_def split: if_splits)
  from assms(2) have a: "anchor src = anchor d" and p: "prefix (parts d) (parts src)"
    by (simp_all add: within_dir_def)
  from a assms(3) have "parts src \<noteq> parts d" by (cases src, cases d) auto
  with p have "strict_prefix (parts d) (parts src)" by (simp add: strict_prefix_def)
  then obtain z zs where "parts src = parts d @ z # zs" by (auto simp: strict_prefix_def prefix_def) (metis list.exhaust append_Nil2)
  then have "butlast (parts src) = parts d @ butlast (z # zs)" by (simp add: butlast_append)
  then have "prefix (parts d) (butlast (parts src) @ [nm])" by simp
  with a show ?thesis by (simp add: within_dir_def dst)
qed

section \<open>The request handler\<close>

lemma handle_url_cases:
  assumes "handle_url env message permits w = Some (r, permits', w')"
  obtains
    (rejected) "trace w' = trace w @ [Answer InvalidLink]" "fs w' = fs w" "permits' = permits"
  | (admitted) "permits' = permits" "0 < permits"
      "pipeline env message (strip (case msg_text message of None \<Rightarrow> [] | Some t \<Rightarrow> t)) w = (r, w')"
proof -
  let ?url = "strip (case msg_text message of None \<Rightarrow> [] | Some t \<Rightarrow> t)"
  show thesis
  proof (cases "is_supported_url ?url")
    case False
    with assms have "send env (Answer InvalidLink) w = (r, w')" "permits' = permits"
      by (auto simp: handle_url_def Let_def split: prod.splits)
    with send_trace [of env "Answer InvalidLink" w r w'] show thesis by (auto intro: rejected)
  next
    case True
    with assms have "0 < permits" "permits' = permits" "pipeline env message ?url w = (r, w')"
      by (auto simp: handle_url_def Let_def acquire_def release_def
               split: prod.splits option.splits if_splits)
    then show thesis by (auto intro: admitted)
  qed
qed

lemma body_event_no_dir: "list_all (body_event opts url) evs \<Longrightarrow> Mkdtemp td \<notin> set evs"
  by (auto simp: list_all_iff)

text \<open>The trace of a handler that made a scratch directory.\<close>

lemma handle_url_job:
  assumes "handle_url env message permits w = Some (r, permits', w')"
    and "trace w' = trace w @ evs" and "Mkdtemp td \<in> set evs"
  obtains body where
    "evs = Answer (Downloading (platform_name
              (strip (case msg_text message of None \<Rightarrow> [] | Some t \<Rightarrow> t)))) #
           Mkdtemp td # body @ [Rmtree td]"
    "list_all (body_event (build_ydl_opts env (Path td)
        (platform_name (strip (case msg_text message of None \<Rightarrow> [] | Some t \<Rightarrow> t)) =
           ustr ''Instagram'') MAX_HEIGHT_TARGET)
        (strip (case msg_text message of None \<Rightarrow> [] | Some t \<Rightarrow> t))) body"
    "\<forall>p. within_dir (Path td) p \<longrightarrow> fs w' p = None"
proof -
  let ?url = "strip (case msg_text message of None \<Rightarrow> [] | Some t \<Rightarrow> t)"
  from assms(1) show thesis
  proof (cases rule: handle_url_cases)
    case rejected
    with assms(2,3) show thesis by auto
  next
    case admitted
    from admitted(3) show thesis
    proof (cases rule: pipeline_cases)
      case early
      with assms(2,3) show thesis by auto
    next
      case (job td' body w2 w3)
      from job(1) assms(2) have
        evs: "evs = Answer (Downloading (platform_name ?url)) # Mkdtemp td' # body @ [Rmtree td']"
        by simp
      from job(2) have "Mkdtemp td \<notin> set body" by (rule body_event_no_dir)
      with evs assms(3) have "td' = td" by auto
      with evs job(2,3) show thesis by (auto intro: that)
    qed
  qed
qed

text \<open>
  C6: when \<open>handle_url\<close> returns, with a result or an exception, every scratch directory
  it made is gone with all below it, and removing it was the last thing the handler did.
  Every output of the transcoding engine whose source lay in the scratch directory lay
  there too and is gone.
\<close>

theorem C6_scratch_removed:
  assumes "handle_url env message permits w = Some (r, permits', w')"
    and "trace w' = trace w @ evs" and "Mkdtemp td \<in> set evs"
  shows "(\<forall>p. within_dir (Path td) p \<longrightarrow> fs w' p = None) \<and> last evs = Rmtree td \<and>
     (\<forall>src dst max_h crf rc ex.
        Transcode src dst max_h crf rc ex \<in> set evs \<longrightarrow>
        within_dir (Path td) src \<longrightarrow> src \<noteq> Path td \<longrightarrow>
          within_dir (Path td) dst \<and> fs w' dst = None)"
proof -
  from assms obtain body opts url where
    evs: "evs = Answer (Downloading (platform_name url)) # Mkdtemp td # body @ [Rmtree td]" and
    body: "list_all (body_event opts url) body" and
    gone: "\<forall>p. within_dir (Path td) p \<longrightarrow> fs w' p = None"
    by (rule handle_url_job)
  have "within_dir (Path td) dst \<and> fs w' dst = None"
    if t: "Transcode src dst max_h crf rc ex \<in> set evs"
      and s: "within_dir (Path td) src" "src \<noteq> Path td" for src dst max_h crf rc ex
  proof -
    from t evs have "Transcode src dst max_h crf rc ex \<in> set body" by auto
    with body have "with_suffix src (crf_suffix max_h crf) = Inr dst"
      by (auto simp: list_all_iff)
    from with_suffix_within_dir [OF this s] gone show ?thesis by simp
  qed
  with evs gone show ?thesis by auto
qed

lemma cookies_opt:
  "map_of (build_ydl_opts env tmp_dir from_instagram max_h) (ustr ''cookies'') =
     (if from_instagram \<and> IG_COOKIES_PATH env \<noteq> [] then Some (OStr (IG_COOKIES_PATH env))
      else None)"
  by (simp add: build_ydl_opts_def Let_def update_conv' ustr_def)

text \<open>The handler of a supported link reaches extraction.\<close>

lemma handle_url_extracts:
  assumes "is_supported_url (strip (case msg_text message of None \<Rightarrow> [] | Some t \<Rightarrow> t))"
    and "0 < permits"
    and "transport env w (Answer (Downloading (platform_name
           (strip (case msg_text message of None \<Rightarrow> [] | Some t \<Rightarrow> t))))) = None"
    and "mkdtemp env (emit (Answer (Downloading (platform_name
           (strip (case msg_text message of None \<Rightarrow> [] | Some t \<Rightarrow> t))))) w) = Inr (td, sz)"
    and "transport env
           (emit (Mkdtemp td)
              ((emit (Answer (Downloading (platform_name
                  (strip (case msg_text message of None \<Rightarrow> [] | Some t \<Rightarrow> t))))) w)
               \<lparr>fs := (fs w)(Path td \<mapsto> sz)\<rparr>))
           (SendChatAction (chat_id message) RECORD_VIDEO) = None"
  shows "\<exists>r' w'' rest. handle_url env message permits w = Some (r', permits, w'') \<and>
     trace w'' = trace w @
       Answer (Downloading (platform_name
         (strip (case msg_text message of None \<Rightarrow> [] | Some t \<Rightarrow> t)))) #
       Mkdtemp td # SendChatAction (chat_id message) RECORD_VIDEO #
       ExtractInfo
         (build_ydl_opts env (Path td)
            (platform_name (strip (case msg_text message of None \<Rightarrow> [] | Some t \<Rightarrow> t)) =
               ustr ''Instagram'') MAX_HEIGHT_TARGET)
         (strip (case msg_text message of None \<Rightarrow> [] | Some t \<Rightarrow> t)) # rest"
proof -
  let ?url = "strip (case msg_text message of None \<Rightarrow> [] | Some t \<Rightarrow> t)"
  let ?plat = "platform_name ?url"
  let ?w1 = "emit (Answer (Downloading ?plat)) w"
  let ?w2 = "emit (Mkdtemp td) (?w1\<lparr>fs := (fs w)(Path td \<mapsto> sz)\<rparr>)"
  let ?opts = "build_ydl_opts env (Path td) (?plat = ustr ''Instagram'') MAX_HEIGHT_TARGET"
  let ?a = "SendChatAction (chat_id message) RECORD_VIDEO"
  from assms(3) have s1: "send env (Answer (Downloading ?plat)) w = (Inr (), ?w1)"
    by (simp add: send_def)
  have f1: "fs ?w1 = fs w" by (simp add: emit_def)
  obtain r3 w3 where g: "guarded env message ?url ?plat ?opts ?w2 = (r3, w3)"
    by (cases "guarded env message ?url ?plat ?opts ?w2")
  from guarded_extracts [OF assms(5) g] obtain rest where
    t3: "trace w3 = trace ?w2 @ ?a # ExtractInfo ?opts ?url # rest" by blast
  let ?w' = "emit (Rmtree td) (rmtree (Path td) w3)"
  have p: "pipeline env message ?url w = (r3, ?w')"
    using s1 assms(4) g by (simp add: pipeline_def Let_def f1)
  have t: "trace ?w' = trace w @ Answer (Downloading ?plat) # Mkdtemp td # ?a #
      ExtractInfo ?opts ?url # (rest @ [Rmtree td])"
    using t3 by (simp add: emit_def rmtree_def)
  from assms(2) obtain k where k: "permits = Suc k" by (cases permits) auto
  have "handle_url env message permits w = Some (r3, permits, ?w')"
    using assms(1) p by (simp add: handle_url_def Let_def acquire_def release_def k)
  with t show ?thesis by blast
qed

text \<open>
  C9: the options \<open>build_ydl_opts\<close> returns hold the key \<open>cookies\<close> exactly when the job is
  for Instagram and \<open>IG_COOKIES_PATH\<close> is not empty, and then with that path; the function
  has no failing case. Whenever \<open>handle_url\<close> runs the extraction engine, the options it
  passes hold \<open>cookies\<close> exactly when the link is classified as Instagram and the path is
  not empty; for a link classified as YouTube they never do. And whether or not a path is
  configured, a handler for a supported link that gets a permit, whose first reply and
  chat action the transport accepts and for which a scratch directory is made, runs the
  extraction engine with these options right after the chat action; without a path they
  hold no \<open>cookies\<close>.
\<close>

theorem C9_cookies_only_for_instagram:
  "map_of (build_ydl_opts env tmp_dir from_instagram max_h) (ustr ''cookies'') =
     (if from_instagram \<and> IG_COOKIES_PATH env \<noteq> [] then Some (OStr (IG_COOKIES_PATH env))
      else None) \<and>
   (handle_url env message permits w = Some (r, permits', w') \<longrightarrow>
    trace w' = trace w @ evs \<longrightarrow> ExtractInfo opts url \<in> set evs \<longrightarrow>
      map_of opts (ustr ''cookies'') =
        (if platform_name url = ustr ''Instagram'' \<and> IG_COOKIES_PATH env \<noteq> []
         then Some (OStr (IG_COOKIES_PATH env)) else None) \<and>
      (platform_name url = ustr ''YouTube'' \<longrightarrow> map_of opts (ustr ''cookies'') = None)) \<and>
   (let u = strip (case msg_text message of None \<Rightarrow> [] | Some t \<Rightarrow> t);
        plat = platform_name u;
        w1 = emit (Answer (Downloading plat)) w;
        w2 = emit (Mkdtemp td) (w1\<lparr>fs := (fs w)(Path td \<mapsto> sz)\<rparr>);
        ydl_opts = build_ydl_opts env (Path td) (plat = ustr ''Instagram'') MAX_HEIGHT_TARGET
    in is_supported_url u \<longrightarrow> 0 < permits \<longrightarrow>
       transport env w (Answer (Downloading plat)) = None \<longrightarrow>
       mkdtemp env w1 = Inr (td, sz) \<longrightarrow>
       transport env w2 (SendChatAction (chat_id message) RECORD_VIDEO) = None \<longrightarrow>
         (\<exists>r' w'' rest.
            handle_url env message permits w = Some (r', permits, w'') \<and>
            trace w'' = trace w @ Answer (Downloading plat) # Mkdtemp td #
              SendChatAction (chat_id message) RECORD_VIDEO # ExtractInfo ydl_opts u # rest) \<and>
         (IG_COOKIES_PATH env = [] \<longrightarrow> map_of ydl_opts (ustr ''cookies'') = None))"
proof -
  have c1: "map_of (build_ydl_opts env tmp_dir from_instagram max_h) (ustr ''cookies'') =
     (if from_instagram \<and> IG_COOKIES_PATH env \<noteq> [] then Some (OStr (IG_COOKIES_PATH env))
      else None)" by (rule cookies_opt)
  have c2: "handle_url env message permits w = Some (r, permits', w') \<longrightarrow>
    trace w' = trace w @ evs \<longrightarrow> ExtractInfo opts url \<in> set evs \<longrightarrow>
      map_of opts (ustr ''cookies'') =
        (if platform_name url = ustr ''Instagram'' \<and> IG_COOKIES_PATH env \<noteq> []
         then Some (OStr (IG_COOKIES_PATH env)) else None) \<and>
      (platform_name url = ustr ''YouTube'' \<longrightarrow> map_of opts (ustr ''cookies'') = None)"
  proof (intro conjI impI)
    assume h: "handle_url env message permits w = Some (r, permits', w')"
      and t: "trace w' = trace w @ evs" and x: "ExtractInfo opts url \<in> set evs"
    let ?url = "strip (case msg_text message of None \<Rightarrow> [] | Some t \<Rightarrow> t)"
    have "\<exists>td. opts = build_ydl_opts env (Path td)
              (platform_name ?url = ustr ''Instagram'') MAX_HEIGHT_TARGET \<and> url = ?url"
      using h
    proof (cases rule: handle_url_cases)
      case rejected
      with t x show ?thesis by auto
    next
      case admitted
      from admitted(3) show ?thesis
      proof (cases rule: pipeline_cases)
        case early
        with t x show ?thesis by auto
      next
        case (job td body w2 w3)
        with t x have "ExtractInfo opts url \<in> set body" by auto
        with job(2) have "body_event (build_ydl_opts env (Path td)
            (platform_name ?url = ustr ''Instagram'') MAX_HEIGHT_TARGET) ?url (ExtractInfo opts url)"
          unfolding list_all_iff by blast
        then show ?thesis by auto
      qed
    qed
    then obtain td where o: "opts = build_ydl_opts env (Path td)
              (platform_name url = ustr ''Instagram'') MAX_HEIGHT_TARGET" by auto
    show c: "map_of opts (ustr ''cookies'') =
          (if platform_name url = ustr ''Instagram'' \<and> IG_COOKIES_PATH env \<noteq> []
           then Some (OStr (IG_COOKIES_PATH env)) else None)"
      unfolding o by (rule cookies_opt)
    assume "platform_name url = ustr ''YouTube''"
    then have "platform_name url \<noteq> ustr ''Instagram''" by (simp add: ustr_def)
    with c show "map_of opts (ustr ''cookies'') = None" by simp
  qed
  have c3: "let u = strip (case msg_text message of None \<Rightarrow> [] | Some t \<Rightarrow> t);
        plat = platform_name u;
        w1 = emit (Answer (Downloading plat)) w;
        w2 = emit (Mkdtemp td) (w1\<lparr>fs := (fs w)(Path td \<mapsto> sz)\<rparr>);
        ydl_opts = build_ydl_opts env (Path td) (plat = ustr ''Instagram'') MAX_HEIGHT_TARGET
    in is_supported_url u \<longrightarrow> 0 < permits \<longrightarrow>
       transport env w (Answer (Downloading plat)) = None \<longrightarrow>
       mkdtemp env w1 = Inr (td, sz) \<longrightarrow>
       transport env w2 (SendChatAction (chat_id message) RECORD_VIDEO) = None \<longrightarrow>
         (\<exists>r' w'' rest.
            handle_url env message permits w = Some (r', permits, w'') \<and>
            trace w'' = trace w @ Answer (Downloading plat) # Mkdtemp td #
              SendChatAction (chat_id message) RECORD_VIDEO # ExtractInfo ydl_opts u # rest) \<and>
         (IG_COOKIES_PATH env = [] \<longrightarrow> map_of ydl_opts (ustr ''cookies'') = None)"
    unfolding Let_def
  proof (intro impI conjI)
    assume "is_supported_url (strip (case msg_text message of None \<Rightarrow> [] | Some t \<Rightarrow> t))"
      "0 < permits"
      "transport env w (Answer (Downloading (platform_name
           (strip (case msg_text message of None \<Rightarrow> [] | Some t \<Rightarrow> t))))) = None"
      "mkdtemp env (emit (Answer (Downloading (platform_name
           (strip (case msg_text message of None \<Rightarrow> [] | Some t \<Rightarrow> t))))) w) = Inr (td, sz)"
      "transport env
           (emit (Mkdtemp td)
              ((emit (Answer (Downloading (platform_name
                  (strip (case msg_text message of None \<Rightarrow> [] | Some t \<Rightarrow> t))))) w)
               \<lparr>fs := (fs w)(Path td \<mapsto> sz)\<rparr>))
           (SendChatAction (chat_id message) RECORD_VIDEO) = None"
    then show "\<exists>r' w'' rest. handle_url env message permits w = Some (r', permits, w'') \<and>
     trace w'' = trace w @
       Answer (Downloading (platform_name
         (strip (case msg_text message of None \<Rightarrow> [] | Some t \<Rightarrow> t)))) #
       Mkdtemp td # SendChatAction (chat_id message) RECORD_VIDEO #
       ExtractInfo
         (build_ydl_opts env (Path td)
            (platform_name (strip (case msg_text message of None \<Rightarrow> [] | Some t \<Rightarrow> t)) =
               ustr ''Instagram'') MAX_HEIGHT_TARGET)
         (strip (case msg_text message of None \<Rightarrow> [] | Some t \<Rightarrow> t)) # rest"
      by (rule handle_url_extracts)
  next
    assume "IG_COOKIES_PATH env = []"
    then show "map_of (build_ydl_opts env (Path td)
            (platform_name (strip (case msg_text message of None \<Rightarrow> [] | Some t \<Rightarrow> t)) =
               ustr ''Instagram'') MAX_HEIGHT_TARGET) (ustr ''cookies'') = None"
      by (simp add: cookies_opt)
  qed
  from c1 c2 c3 show ?thesis by (intro conjI)
qed

section \<open>An example job\<close>

lemma strip_reel: "strip (ustr ''instagram.com/p/x'') = ustr ''instagram.com/p/x''"
  by (simp add: strip_def isspace_def ustr_def)

lemma supported_reel: "is_supported_url (ustr ''instagram.com/p/x'')"
  by (simp add: is_supported_url_def url_eval)

lemma platform_reel: "platform_name (ustr ''instagram.com/p/x'') = ustr ''Instagram''"
  by (simp add: platform_name_def url_eval)

lemma path_job: "Path (ustr ''/tmp/job'') = \<lparr>anchor = ustr ''/'', parts = [ustr ''tmp'', ustr ''job'']\<rparr>"
  by (simp add: Path_def ustr_def)

lemma path_video:
  "Path (ustr ''/tmp/job/v.mp4'') =
     \<lparr>anchor = ustr ''/'', parts = [ustr ''tmp'', ustr ''job'', ustr ''v.mp4'']\<rparr>"
  by (simp add: Path_def ustr_def)

lemma video_in_job: "within_dir (Path (ustr ''/tmp/job'')) (Path (ustr ''/tmp/job/v.mp4''))"
  by (simp add: path_job path_video within_dir_def)

lemma human_mb_example_6: "human_mb 10485760 = 10"
  by (simp add: human_mb_def round_half_even_def Let_def)

lemma demo_guarded:
  "guarded demo_env reel_message (ustr ''instagram.com/p/x'') (ustr ''Instagram'') opts w =
     (Inr (),
      \<lparr>fs = (fs w)(Path (ustr ''/tmp/job/v.mp4'') \<mapsto> 10485760),
       trace = trace w @
         [SendChatAction 7 RECORD_VIDEO,
          ExtractInfo opts (ustr ''instagram.com/p/x''),
          Logging (Downloaded 10 (ustr ''Instagram'')),
          EditText Uploading,
          SendChatAction 7 UPLOAD_VIDEO,
          AnswerVideo (Path (ustr ''/tmp/job/v.mp4'')) (ustr ''<b>T</b>'')]\<rparr>)"
  by (simp add: guarded_def process_def extract'_def send_file_def send_def emit_def
      demo_env_def reel_message_def path_exists_def st_size_def human_mb_example_6 Let_def
      SAFE_LIMIT_MB_def TELEGRAM_LIMIT_MB_def SEND_AS_VIDEO_THRESHOLD_MB_def caption_of_def
      ustr_def)

lemma demo_env_sel:
  "transport demo_env w ev = None" "mkdtemp demo_env w = Inr (ustr ''/tmp/job'', 4096)"
  by (simp_all add: demo_env_def)

lemma demo_run:
  "\<exists>w'. handle_url demo_env reel_message 2 idle = Some (Inr (), 2, w') \<and>
         trace w' = trace idle @ demo_trace"
proof -
  let ?p = "pipeline demo_env reel_message (ustr ''instagram.com/p/x'') idle"
  have p: "?p = (Inr (), snd ?p)" and t: "trace (snd ?p) = demo_trace"
    by (simp_all add: pipeline_def platform_reel demo_guarded Let_def send_def demo_env_sel
        emit_def rmtree_def idle_def demo_trace_def)
  have m: "msg_text reel_message = Some (ustr ''instagram.com/p/x'')"
    by (simp add: reel_message_def)
  have "handle_url demo_env reel_message 2 idle = (case ?p of (r, w') \<Rightarrow> Some (r, 2, w'))"
    by (simp add: handle_url_def m strip_reel supported_reel acquire_def release_def Let_def
        numeral_2_eq_2)
  also have "\<dots> = Some (Inr (), 2, snd ?p)" by (subst p) simp
  finally have "handle_url demo_env reel_message 2 idle = Some (Inr (), 2, snd ?p)" .
  moreover have "trace (snd ?p) = trace idle @ demo_trace" using t by (simp add: idle_def)
  ultimately show ?thesis by blast
qed

theorem C6_witness:
  "Mkdtemp (ustr ''/tmp/job'') \<in> set demo_trace \<and>
   within_dir (Path (ustr ''/tmp/job'')) (Path (ustr ''/tmp/job/v.mp4'')) \<and>
   (\<exists>w'. handle_url demo_env reel_message 2 idle = Some (Inr (), 2, w') \<and>
          trace w' = trace idle @ demo_trace \<and>
          fs w' (Path (ustr ''/tmp/job/v.mp4'')) = None \<and>
          fs w' (Path (ustr ''/tmp/job'')) = None) \<and>
   last demo_trace = Rmtree (ustr ''/tmp/job'')"
proof -
  from demo_run obtain w' where
    h: "handle_url demo_env reel_message 2 idle = Some (Inr (), 2, w')" and
    t: "trace w' = trace idle @ demo_trace" by blast
  have m: "Mkdtemp (ustr ''/tmp/job'') \<in> set demo_trace" by (simp add: demo_trace_def)
  have d: "within_dir (Path (ustr ''/tmp/job'')) (Path (ustr ''/tmp/job''))"
    by (simp add: within_dir_def)
  from C6_scratch_removed [OF h t m] video_in_job d have
    "fs w' (Path (ustr ''/tmp/job/v.mp4'')) = None" "fs w' (Path (ustr ''/tmp/job'')) = None"
    "last demo_trace = Rmtree (ustr ''/tmp/job'')" by blast+
  with h t m video_in_job show ?thesis by blast
qed

lemma demo_cookies: "IG_COOKIES_PATH demo_env = ustr ''/c.txt''"
  by (simp add: IG_COOKIES_PATH_def demo_env_def strip_def isspace_def ustr_def)

lemma anon_guarded:
  "guarded anon_env reel_message (ustr ''instagram.com/p/x'') (ustr ''Instagram'') opts w =
     (Inr (),
      \<lparr>fs = (fs w)(Path (ustr ''/tmp/job/v.mp4'') \<mapsto> 10485760),
       trace = trace w @
         [SendChatAction 7 RECORD_VIDEO,
          ExtractInfo opts (ustr ''instagram.com/p/x''),
          Logging (Downloaded 10 (ustr ''Instagram'')),
          EditText Uploading,
          SendChatAction 7 UPLOAD_VIDEO,
          AnswerVideo (Path (ustr ''/tmp/job/v.mp4'')) (ustr ''<b>T</b>'')]\<rparr>)"
  by (simp add: guarded_def process_def extract'_def send_file_def send_def emit_def
      anon_env_def demo_env_def reel_message_def path_exists_def st_size_def human_mb_example_6
      Let_def SAFE_LIMIT_MB_def TELEGRAM_LIMIT_MB_def SEND_AS_VIDEO_THRESHOLD_MB_def
      caption_of_def ustr_def)

lemma anon_env_sel:
  "transport anon_env w ev = None" "mkdtemp anon_env w = Inr (ustr ''/tmp/job'', 4096)"
  by (simp_all add: anon_env_def demo_env_def)

lemma anon_cookies: "IG_COOKIES_PATH anon_env = []"
  by (simp add: IG_COOKIES_PATH_def anon_env_def strip_def)

lemma anon_run:
  "\<exists>w'. handle_url anon_env reel_message 2 idle = Some (Inr (), 2, w') \<and>
         trace w' = trace idle @ anon_trace"
proof -
  let ?p = "pipeline anon_env reel_message (ustr ''instagram.com/p/x'') idle"
  have p: "?p = (Inr (), snd ?p)" and t: "trace (snd ?p) = anon_trace"
    by (simp_all add: pipeline_def platform_reel anon_guarded Let_def send_def anon_env_sel
        emit_def rmtree_def idle_def anon_trace_def)
  have m: "msg_text reel_message = Some (ustr ''instagram.com/p/x'')"
    by (simp add: reel_message_def)
  have "handle_url anon_env reel_message 2 idle = (case ?p of (r, w') \<Rightarrow> Some (r, 2, w'))"
    by (simp add: handle_url_def m strip_reel supported_reel acquire_def release_def Let_def
        numeral_2_eq_2)
  also have "\<dots> = Some (Inr (), 2, snd ?p)" by (subst p) simp
  finally have "handle_url anon_env reel_message 2 idle = Some (Inr (), 2, snd ?p)" .
  moreover have "trace (snd ?p) = trace idle @ anon_trace" using t by (simp add: idle_def)
  ultimately show ?thesis by blast
qed

theorem C9_witness:
  "(\<exists>w'. handle_url demo_env reel_message 2 idle = Some (Inr (), 2, w') \<and>
          trace w' = trace idle @ demo_trace) \<and>
   ExtractInfo (build_ydl_opts demo_env (Path (ustr ''/tmp/job'')) True MAX_HEIGHT_TARGET)
     (ustr ''instagram.com/p/x'') \<in> set demo_trace \<and>
   platform_name (ustr ''instagram.com/p/x'') = ustr ''Instagram'' \<and>
   IG_COOKIES_PATH demo_env = ustr ''/c.txt'' \<and>
   map_of (build_ydl_opts demo_env (Path (ustr ''/tmp/job'')) True MAX_HEIGHT_TARGET)
     (ustr ''cookies'') = Some (OStr (ustr ''/c.txt'')) \<and>
   IG_COOKIES_PATH anon_env = [] \<and>
   (\<exists>r' w'' rest.
      handle_url anon_env reel_message 2 idle = Some (r', 2, w'') \<and>
      trace w'' = trace idle @ Answer (Downloading (ustr ''Instagram'')) #
        Mkdtemp (ustr ''/tmp/job'') # SendChatAction 7 RECORD_VIDEO #
        ExtractInfo (build_ydl_opts anon_env (Path (ustr ''/tmp/job'')) True MAX_HEIGHT_TARGET)
          (ustr ''instagram.com/p/x'') # rest) \<and>
   map_of (build_ydl_opts anon_env (Path (ustr ''/tmp/job'')) True MAX_HEIGHT_TARGET)
     (ustr ''cookies'') = None \<and>
   (\<exists>w'. handle_url anon_env reel_message 2 idle = Some (Inr (), 2, w') \<and>
          trace w' = trace idle @ anon_trace)"
proof -
  from demo_run obtain w' where
    h: "handle_url demo_env reel_message 2 idle = Some (Inr (), 2, w')" and
    t: "trace w' = trace idle @ demo_trace" by blast
  let ?opts = "build_ydl_opts demo_env (Path (ustr ''/tmp/job'')) True MAX_HEIGHT_TARGET"
  let ?anon = "build_ydl_opts anon_env (Path (ustr ''/tmp/job'')) True MAX_HEIGHT_TARGET"
  have x: "ExtractInfo ?opts (ustr ''instagram.com/p/x'') \<in> set demo_trace"
    by (simp add: demo_trace_def)
  have ne: "ustr ''/c.txt'' \<noteq> []" by (simp add: ustr_def)
  have m: "msg_text reel_message = Some (ustr ''instagram.com/p/x'')" "chat_id reel_message = 7"
    by (simp_all add: reel_message_def)
  note inst = C9_cookies_only_for_instagram [of demo_env "Path (ustr ''/tmp/job'')" True
      MAX_HEIGHT_TARGET reel_message 2 idle "Inr ()" 2 w' demo_trace ?opts
      "ustr ''instagram.com/p/x''"]
  from inst h t x
  have "map_of ?opts (ustr ''cookies'') =
      (if platform_name (ustr ''instagram.com/p/x'') = ustr ''Instagram'' \<and>
          IG_COOKIES_PATH demo_env \<noteq> []
       then Some (OStr (IG_COOKIES_PATH demo_env)) else None)" by blast
  with platform_reel demo_cookies ne have
    a: "map_of ?opts (ustr ''cookies'') = Some (OStr (ustr ''/c.txt''))" by simp
  have third: "let u = strip (case msg_text reel_message of None \<Rightarrow> [] | Some t \<Rightarrow> t);
        plat = platform_name u;
        w1 = emit (Answer (Downloading plat)) idle;
        w2 = emit (Mkdtemp (ustr ''/tmp/job'')) (w1\<lparr>fs := (fs idle)(Path (ustr ''/tmp/job'') \<mapsto> 4096)\<rparr>);
        ydl_opts = build_ydl_opts anon_env (Path (ustr ''/tmp/job'')) (plat = ustr ''Instagram'') MAX_HEIGHT_TARGET
    in is_supported_url u \<longrightarrow> 0 < (2::nat) \<longrightarrow>
       transport anon_env idle (Answer (Downloading plat)) = None \<longrightarrow>
       mkdtemp anon_env w1 = Inr (ustr ''/tmp/job'', 4096) \<longrightarrow>
       transport anon_env w2 (SendChatAction (chat_id reel_message) RECORD_VIDEO) = None \<longrightarrow>
         (\<exists>r' w'' rest.
            handle_url anon_env reel_message 2 idle = Some (r', 2, w'') \<and>
            trace w'' = trace idle @ Answer (Downloading plat) # Mkdtemp (ustr ''/tmp/job'') #
              SendChatAction (chat_id reel_message) RECORD_VIDEO # ExtractInfo ydl_opts u # rest) \<and>
         (IG_COOKIES_PATH anon_env = [] \<longrightarrow> map_of ydl_opts (ustr ''cookies'') = None)"
    by (rule C9_cookies_only_for_instagram [where env = anon_env and message = reel_message
        and permits = 2 and w = idle and td = "ustr ''/tmp/job''" and sz = 4096,
        THEN conjunct2, THEN conjunct2])
  then have b: "\<exists>r' w'' rest.
      handle_url anon_env reel_message 2 idle = Some (r', 2, w'') \<and>
      trace w'' = trace idle @ Answer (Downloading (ustr ''Instagram'')) #
        Mkdtemp (ustr ''/tmp/job'') # SendChatAction 7 RECORD_VIDEO #
        ExtractInfo ?anon (ustr ''instagram.com/p/x'') # rest"
    and c: "map_of ?anon (ustr ''cookies'') = None"
    unfolding Let_def m option.case strip_reel platform_reel
    using supported_reel anon_env_sel anon_cookies by simp_all
  show ?thesis
    apply (intro conjI)
            apply (rule demo_run)
           apply (rule x)
          apply (rule platform_reel)
         apply (rule demo_cookies)
        apply (rule a)
       apply (rule anon_cookies)
      apply (rule b)
     apply (rule c)
    apply (rule anon_run)
    done
qed

section \<open>A failed engine run ends the job\<close>

lemma plain_events:
  "list_all plain_event evs \<Longrightarrow> uploads evs = [] \<and> (\<forall>e\<in>set evs. \<not> failed_transcode e)"
proof (induction evs)
  case Nil
  then show ?case by simp
next
  case (Cons e evs)
  then show ?case by (cases e) simp_all
qed

lemma ladder_events: "list_all ladder_event evs \<Longrightarrow> uploads evs = []"
proof (induction evs)
  case Nil
  then show ?case by simp
next
  case (Cons e evs)
  then show ?case by (cases e) simp_all
qed

lemma chat_events: "list_all chat_event evs \<Longrightarrow> \<forall>e\<in>set evs. \<not> failed_transcode e"
proof (induction evs)
  case Nil
  then show ?case by simp
next
  case (Cons e evs)
  then show ?case by (cases e) simp_all
qed

lemma process_transcode_failure:
  assumes "process env message url plat opts w = (r, w')" and "trace w' = trace w @ evs"
    and "e \<in> set evs" and "failed_transcode e"
  shows "r = Inl (RuntimeError (ustr ''ffmpeg compress failed'')) \<and> last evs = e \<and>
         uploads evs = [] \<and> (\<forall>x\<in>set (butlast evs). \<not> failed_transcode x)"
proof -
  let ?a = "SendChatAction (chat_id message) RECORD_VIDEO"
  obtain r1 w1 where s1: "send env ?a w = (r1, w1)" by (cases "send env ?a w")
  from send_trace [OF s1] have t1: "trace w1 = trace w @ [?a]" by simp
  show ?thesis
  proof (cases r1)
    case (Inl x)
    with assms(1) s1 have "w' = w1" by (simp add: process_def)
    with t1 assms(2,3,4) show ?thesis by auto
  next
    case r1: (Inr x)
    obtain r2 w2 where s2: "extract' env opts url w1 = (r2, w2)"
      by (cases "extract' env opts url w1")
    have "trace w2 = trace w1 @ [ExtractInfo opts url]"
      using s2 by (auto simp: extract'_def Let_def emit_def
             split: sum.splits prod.splits info.splits)
    with t1 have t2: "trace w2 = trace w @ [?a, ExtractInfo opts url]" by simp
    show ?thesis
    proof (cases r2)
      case (Inl x)
      with assms(1) s1 r1 s2 have "w' = w2" by (simp add: process_def)
      with t2 assms(2,3,4) show ?thesis by auto
    next
      case (Inr pt)
      obtain filepath title where pt: "pt = (filepath, title)" by (cases pt)
      show ?thesis
      proof (cases "fs w2 filepath")
        case None
        with assms(1) s1 r1 s2 Inr pt have "w' = w2"
          by (simp add: process_def path_exists_def)
        with t2 assms(2,3,4) show ?thesis by auto
      next
        case (Some n)
        let ?d = "Logging (Downloaded (human_mb (int n)) plat)"
        let ?pre = "[?a, ExtractInfo opts url, ?d]"
        let ?w3 = "emit ?d w2"
        have t3: "trace ?w3 = trace w @ ?pre" using t2 by (simp add: emit_def)
        have pre: "list_all plain_event ?pre" by simp
        obtain r4 w4 where s4: "(if of_int SAFE_LIMIT_MB < human_mb (int n)
            then shrink_until_ok env filepath ?w3 else (Inr filepath, ?w3)) = (r4, w4)"
          by (cases "if of_int SAFE_LIMIT_MB < human_mb (int n)
            then shrink_until_ok env filepath ?w3 else (Inr filepath, ?w3)")
        have "extends ladder_event ?w3 w4"
          using s4 by (auto split: if_splits intro: shrink_until_ok_ladder extends_refl)
        then obtain lad where lad: "trace w4 = trace ?w3 @ lad" "list_all ladder_event lad"
          by (auto simp: extends_def)
        have run: "lad = [] \<or> ladder_run attempts filepath r4 lad"
        proof (cases "of_int SAFE_LIMIT_MB < human_mb (int n)")
          case True
          with s4 have "shrink_until_ok env filepath ?w3 = (r4, w4)" by simp
          from shrink_until_ok_run [OF this lad(1)] show ?thesis by auto
        next
          case False
          with s4 lad(1) show ?thesis by auto
        qed
        have pr: "process env message url plat opts w =
           (case (r4, w4) of (Inl x, w4) \<Rightarrow> (Inl x, w4)
            | (Inr filepath', w4) \<Rightarrow>
                (case send env (EditText Uploading) w4 of
                   (Inl x, w5) \<Rightarrow> (Inl x, w5)
                 | (Inr _, w5) \<Rightarrow> send_file env message filepath' title w5))"
          using s1 r1 s2 Inr pt Some s4
          by (simp add: process_def path_exists_def st_size_def Let_def)
        have "\<exists>post. trace w' = trace w4 @ post \<and> list_all chat_event post \<and>
                (post \<noteq> [] \<longrightarrow> (\<exists>q. r4 = Inr q))"
        proof (cases r4)
          case (Inl x)
          with pr assms(1) have "w' = w4" by simp
          then show ?thesis by simp
        next
          case r4: (Inr filepath')
          obtain r5 w5 where s5: "send env (EditText Uploading) w4 = (r5, w5)"
            by (cases "send env (EditText Uploading) w4")
          from send_trace [OF s5] have t5: "trace w5 = trace w4 @ [EditText Uploading]" by simp
          show ?thesis
          proof (cases r5)
            case (Inl x)
            with pr assms(1) r4 s5 have "w' = w5" by simp
            with t5 r4 show ?thesis by simp
          next
            case (Inr y)
            with pr assms(1) r4 s5 have "send_file env message filepath' title w5 = (r, w')"
              by simp
            from send_file_chat [OF this] obtain tl where
              "trace w' = trace w5 @ tl" "list_all chat_event tl" by (auto simp: extends_def)
            with t5 r4 show ?thesis by simp
          qed
        qed
        then obtain post where post: "trace w' = trace w4 @ post" "list_all chat_event post"
          "post \<noteq> [] \<longrightarrow> (\<exists>q. r4 = Inr q)" by blast
        from post(1) lad(1) t3 assms(2) have evs: "evs = ?pre @ lad @ post" by simp
        from plain_events [OF pre] chat_events [OF post(2)] evs assms(3,4)
        have el: "e \<in> set lad" by auto
        with run have lr: "ladder_run attempts filepath r4 lad" by auto
        with el assms(4) have r4: "r4 = Inl (RuntimeError (ustr ''ffmpeg compress failed''))"
          and last: "last lad = e" and bl: "\<forall>x\<in>set (butlast lad). \<not> failed_transcode x"
          by (auto simp: ladder_run_def)
        from r4 post(3) have p0: "post = []" by auto
        from r4 pr assms(1) have r: "r = Inl (RuntimeError (ustr ''ffmpeg compress failed''))"
          by simp
        from el have ne: "lad \<noteq> []" by auto
        from evs p0 ne have bevs: "butlast evs = ?pre @ butlast lad"
          by (simp add: butlast_append)
        from evs p0 ne last have "last evs = e" by simp
        moreover from evs p0 ladder_events [OF lad(2)] have "uploads evs = []" by simp
        moreover from bevs bl have "\<forall>x\<in>set (butlast evs). \<not> failed_transcode x" by auto
        ultimately show ?thesis using r by simp
      qed
    qed
  qed
qed

lemma guarded_transcode_failure:
  assumes "guarded env message url plat opts w = (r, w')" and "trace w' = trace w @ evs"
    and "e \<in> set evs" and "failed_transcode e"
  shows "\<exists>pre. evs = pre @ [e, Logging ProcessFailed,
                  EditText (DownloadFailed (ustr ''ffmpeg compress failed''))] \<and>
           uploads evs = [] \<and> (\<forall>x\<in>set pre. \<not> failed_transcode x)"
proof -
  obtain r1 w1 where p: "process env message url plat opts w = (r1, w1)"
    by (cases "process env message url plat opts w")
  from process_extends [OF p] obtain evs1 where t1: "trace w1 = trace w @ evs1"
    by (auto simp: extends_def)
  note pf = process_transcode_failure [OF p t1]
  show ?thesis
  proof (cases r1)
    case (Inr x)
    with assms(1) p have "w' = w1" by (simp add: guarded_def)
    with t1 assms(2) have "evs = evs1" by simp
    with pf [of e] assms(3,4) Inr show ?thesis by simp
  next
    case (Inl x)
    with assms(1) p have "send env (EditText (DownloadFailed (exn_str x)))
        (emit (Logging ProcessFailed) w1) = (r, w')" by (simp add: guarded_def)
    from send_trace [OF this] t1 assms(2)
    have evs: "evs = evs1 @ [Logging ProcessFailed, EditText (DownloadFailed (exn_str x))]"
      by (simp add: emit_def)
    with assms(3,4) have e1: "e \<in> set evs1" by auto
    from pf [OF e1 assms(4)] Inl have x: "x = RuntimeError (ustr ''ffmpeg compress failed'')"
      and last: "last evs1 = e" and up: "uploads evs1 = []"
      and bl: "\<forall>x\<in>set (butlast evs1). \<not> failed_transcode x" by simp_all
    from e1 have "evs1 \<noteq> []" by auto
    with last have "evs1 = butlast evs1 @ [e]" by (metis append_butlast_last_id)
    with evs x have "evs = butlast evs1 @ [e, Logging ProcessFailed,
        EditText (DownloadFailed (ustr ''ffmpeg compress failed''))]" by simp
    moreover from evs up have "uploads evs = []" by (simp add: uploads_append)
    ultimately show ?thesis using bl by blast
  qed
qed

lemma handle_url_transcode_failure:
  assumes "handle_url env message permits w = Some (r, permits', w')"
    and "trace w' = trace w @ evs" and "e \<in> set evs" and "failed_transcode e"
  shows "\<exists>pre td. evs = pre @ [e, Logging ProcessFailed,
                  EditText (DownloadFailed (ustr ''ffmpeg compress failed'')), Rmtree td] \<and>
           uploads evs = [] \<and> (\<forall>x\<in>set pre. \<not> failed_transcode x)"
  using assms(1)
proof (cases rule: handle_url_cases)
  case rejected
  with assms(2,3,4) show ?thesis by auto
next
  case admitted
  from admitted(3) show ?thesis
  proof (cases rule: pipeline_cases)
    case early
    with assms(2,3,4) show ?thesis by auto
  next
    case (job td body w2 w3)
    let ?d = "Answer (Downloading (platform_name
        (strip (case msg_text message of None \<Rightarrow> [] | Some t \<Rightarrow> t))))"
    from job(1) assms(2) have evs: "evs = ?d # Mkdtemp td # body @ [Rmtree td]" by simp
    with assms(3,4) have "e \<in> set body" by auto
    from guarded_transcode_failure [OF job(4,5) this assms(4)] obtain pre where
      b: "body = pre @ [e, Logging ProcessFailed,
                  EditText (DownloadFailed (ustr ''ffmpeg compress failed''))]"
      and up: "uploads body = []" and pre: "\<forall>x\<in>set pre. \<not> failed_transcode x" by blast
    from evs b have "evs = (?d # Mkdtemp td # pre) @ [e, Logging ProcessFailed,
        EditText (DownloadFailed (ustr ''ffmpeg compress failed'')), Rmtree td]" by simp
    moreover from evs up have "uploads evs = []" by (simp add: uploads_append)
    moreover from pre have "\<forall>x\<in>set (?d # Mkdtemp td # pre). \<not> failed_transcode x" by simp
    ultimately show ?thesis by blast
  qed
qed

text \<open>
  C4: \<open>ffmpeg_compress\<close> raises exactly when the engine's exit status is not 0 or the
  destination does not exist afterwards. In the ladder, a failed engine run makes the
  ladder raise that error, and it is the last event of the ladder: no status edit and
  no engine run follows it. In the handler, a failed engine run is followed only by the
  log entry, the failure report with the text of that error, and the removal of the
  scratch directory: no further engine run and no upload is attempted.
\<close>

theorem C4_transcode_failure_aborts:
  "((\<exists>x. fst (ffmpeg_compress env src dst max_h crf w0) = Inl x) \<longleftrightarrow>
      fst (engine env w0 (ffmpeg_cmd src dst max_h crf)) \<noteq> 0 \<or>
      snd (engine env w0 (ffmpeg_cmd src dst max_h crf)) dst = None) \<and>
   (shrink_until_ok env filepath w = (r, w') \<longrightarrow> trace w' = trace w @ evs \<longrightarrow>
      e \<in> set evs \<longrightarrow> failed_transcode e \<longrightarrow>
        r = Inl (RuntimeError (ustr ''ffmpeg compress failed'')) \<and> last evs = e \<and>
        (\<forall>x\<in>set (butlast evs). \<not> failed_transcode x)) \<and>
   (handle_url env message permits v = Some (res, permits', v') \<longrightarrow>
      trace v' = trace v @ job \<longrightarrow> f \<in> set job \<longrightarrow> failed_transcode f \<longrightarrow>
        (\<exists>pre td. job = pre @ [f, Logging ProcessFailed,
             EditText (DownloadFailed (ustr ''ffmpeg compress failed'')), Rmtree td] \<and>
           (\<forall>x\<in>set pre. \<not> failed_transcode x)) \<and>
        uploads job = [])"
proof (intro conjI impI)
  show "(\<exists>x. fst (ffmpeg_compress env src dst max_h crf w0) = Inl x) \<longleftrightarrow>
      fst (engine env w0 (ffmpeg_cmd src dst max_h crf)) \<noteq> 0 \<or>
      snd (engine env w0 (ffmpeg_cmd src dst max_h crf)) dst = None"
    by (cases "engine env w0 (ffmpeg_cmd src dst max_h crf)")
       (simp add: ffmpeg_compress_def Let_def path_exists_def emit_def)
next
  assume a: "shrink_until_ok env filepath w = (r, w')" "trace w' = trace w @ evs"
    "e \<in> set evs" "failed_transcode e"
  from shrink_until_ok_run [OF a(1,2)] a(3) have "ladder_run attempts filepath r evs"
    by auto
  with a(3,4) show "r = Inl (RuntimeError (ustr ''ffmpeg compress failed''))" "last evs = e"
    "\<forall>x\<in>set (butlast evs). \<not> failed_transcode x"
    by (auto simp: ladder_run_def)
next
  assume a: "handle_url env message permits v = Some (res, permits', v')"
    "trace v' = trace v @ job" "f \<in> set job" "failed_transcode f"
  from handle_url_transcode_failure [OF a] show
    "\<exists>pre td. job = pre @ [f, Logging ProcessFailed,
             EditText (DownloadFailed (ustr ''ffmpeg compress failed'')), Rmtree td] \<and>
           (\<forall>x\<in>set pre. \<not> failed_transcode x)"
    "uploads job = []" by blast+
qed

lemma broken_env_sel:
  "transport broken_env w ev = None" "mkdtemp broken_env w = Inr (ustr ''/tmp/job'', 4096)"
  by (simp_all add: broken_env_def)

lemma broken_guarded:
  "fs w (Path (ustr ''/tmp/job/v.480p.crf28.mp4'')) = None \<Longrightarrow>
   guarded broken_env reel_message (ustr ''instagram.com/p/x'') (ustr ''Instagram'') opts w =
     (Inr (),
      \<lparr>fs = (fs w)(Path (ustr ''/tmp/job/v.mp4'') \<mapsto> 3000000000),
       trace = trace w @
         [SendChatAction 7 RECORD_VIDEO,
          ExtractInfo opts (ustr ''instagram.com/p/x''),
          Logging (Downloaded (143051 / 50) (ustr ''Instagram'')),
          EditText (Compressing 480 28),
          failed_run,
          Logging ProcessFailed,
          EditText (DownloadFailed (ustr ''ffmpeg compress failed''))]\<rparr>)"
  by (simp add: guarded_def process_def extract'_def send_def emit_def
      broken_env_def reel_message_def path_exists_def st_size_def human_mb_example_2 Let_def
      SAFE_LIMIT_MB_def shrink_until_ok_def attempts_def MAX_HEIGHT_TARGET_def
      ffmpeg_compress_def failed_run_def Path_def with_suffix_def crf_suffix_def
      str_int_480 str_int_28 path_name_def name_suffix_def ustr_def)

lemma job_neq_output:
  "Path (ustr ''/tmp/job'') \<noteq> Path (ustr ''/tmp/job/v.480p.crf28.mp4'')"
  "Path (ustr ''/tmp/job/v.480p.crf28.mp4'') \<noteq> Path (ustr ''/tmp/job'')"
  by (simp_all add: Path_def ustr_def)

lemma broken_run:
  "\<exists>w'. handle_url broken_env reel_message 2 idle = Some (Inr (), 2, w') \<and>
         trace w' = trace idle @ broken_trace"
proof -
  let ?p = "pipeline broken_env reel_message (ustr ''instagram.com/p/x'') idle"
  have p: "?p = (Inr (), snd ?p)" and t: "trace (snd ?p) = broken_trace"
    by (simp_all add: pipeline_def platform_reel broken_guarded Let_def send_def broken_env_sel
        emit_def rmtree_def idle_def broken_trace_def job_neq_output)
  have m: "msg_text reel_message = Some (ustr ''instagram.com/p/x'')"
    by (simp add: reel_message_def)
  have "handle_url broken_env reel_message 2 idle = (case ?p of (r, w') \<Rightarrow> Some (r, 2, w'))"
    by (simp add: handle_url_def m strip_reel supported_reel acquire_def release_def Let_def
        numeral_2_eq_2)
  also have "\<dots> = Some (Inr (), 2, snd ?p)" by (subst p) simp
  finally have "handle_url broken_env reel_message 2 idle = Some (Inr (), 2, snd ?p)" .
  moreover have "trace (snd ?p) = trace idle @ broken_trace" using t by (simp add: idle_def)
  ultimately show ?thesis by blast
qed

theorem C4_witness:
  "fst (engine (quiet_env 1 0) (one_file (in_t ''a.mp4'') 3000000000)
         (ffmpeg_cmd (in_t ''a.mp4'') (in_t ''a.480p.crf28.mp4'') 480 28)) \<noteq> 0 \<and>
   (\<exists>x. fst (ffmpeg_compress (quiet_env 1 0) (in_t ''a.mp4'') (in_t ''a.480p.crf28.mp4'') 480 28
              (one_file (in_t ''a.mp4'') 3000000000)) = Inl x) \<and>
   failed_transcode (Transcode (in_t ''a.mp4'') (in_t ''a.480p.crf28.mp4'') 480 28 1 False) \<and>
   fst (shrink_until_ok (quiet_env 1 0) (in_t ''a.mp4'') (one_file (in_t ''a.mp4'') 3000000000)) =
     Inl (RuntimeError (ustr ''ffmpeg compress failed'')) \<and>
   last (trace (snd (shrink_until_ok (quiet_env 1 0) (in_t ''a.mp4'')
                       (one_file (in_t ''a.mp4'') 3000000000)))) =
     Transcode (in_t ''a.mp4'') (in_t ''a.480p.crf28.mp4'') 480 28 1 False \<and>
   (\<exists>w'. handle_url broken_env reel_message 2 idle = Some (Inr (), 2, w') \<and>
          trace w' = trace idle @ broken_trace) \<and>
   failed_run \<in> set broken_trace \<and> failed_transcode failed_run \<and>
   uploads broken_trace = [] \<and>
   (\<exists>pre td. broken_trace = pre @ [failed_run, Logging ProcessFailed,
        EditText (DownloadFailed (ustr ''ffmpeg compress failed'')), Rmtree td])"
proof -
  let ?w = "one_file (in_t ''a.mp4'') 3000000000"
  let ?t = "Transcode (in_t ''a.mp4'') (in_t ''a.480p.crf28.mp4'') 480 28 1 False"
  let ?evs = "[EditText (Compressing 480 28), ?t]"
  let ?w' = "\<lparr>fs = [in_t ''a.mp4'' \<mapsto> 3000000000], trace = ?evs\<rparr>"
  have 1: "fst (engine (quiet_env 1 0) ?w
      (ffmpeg_cmd (in_t ''a.mp4'') (in_t ''a.480p.crf28.mp4'') 480 28)) \<noteq> 0"
    by (simp add: quiet_env_def)
  have 2: "trace ?w' = trace ?w @ ?evs" by (simp add: one_file_def)
  have 3: "?t \<in> set ?evs" by simp
  have 4: "failed_transcode ?t" by simp
  from broken_run obtain v' where
    h: "handle_url broken_env reel_message 2 idle = Some (Inr (), 2, v')" and
    t: "trace v' = trace idle @ broken_trace" by blast
  have 5: "failed_run \<in> set broken_trace" by (simp add: broken_trace_def)
  have 6: "failed_transcode failed_run" by (simp add: failed_run_def)
  note ladder = C4_transcode_failure_aborts [where env = "quiet_env 1 0"
      and src = "in_t ''a.mp4''" and dst = "in_t ''a.480p.crf28.mp4''" and max_h = 480
      and crf = 28 and ?w0.0 = ?w and filepath = "in_t ''a.mp4''" and w = ?w
      and r = "Inl (RuntimeError (ustr ''ffmpeg compress failed''))" and w' = ?w'
      and evs = ?evs and e = ?t]
  note handler = C4_transcode_failure_aborts [where env = broken_env
      and message = reel_message and permits = 2 and v = idle and res = "Inr ()"
      and permits' = 2 and v' = v' and job = broken_trace and f = failed_run]
  from ladder 1 have a: "\<exists>x. fst (ffmpeg_compress (quiet_env 1 0) (in_t ''a.mp4'')
      (in_t ''a.480p.crf28.mp4'') 480 28 ?w) = Inl x" by blast
  from ladder run_engine_fails 2 3 4 have b: "last ?evs = ?t" by blast
  from handler h t 5 6 have c: "uploads broken_trace = []"
    "\<exists>pre td. broken_trace = pre @ [failed_run, Logging ProcessFailed,
        EditText (DownloadFailed (ustr ''ffmpeg compress failed'')), Rmtree td]" by blast+
  from 1 a 4 b have "fst (engine (quiet_env 1 0) ?w
         (ffmpeg_cmd (in_t ''a.mp4'') (in_t ''a.480p.crf28.mp4'') 480 28)) \<noteq> 0 \<and>
   (\<exists>x. fst (ffmpeg_compress (quiet_env 1 0) (in_t ''a.mp4'') (in_t ''a.480p.crf28.mp4'') 480 28
              ?w) = Inl x) \<and>
   failed_transcode ?t \<and>
   fst (shrink_until_ok (quiet_env 1 0) (in_t ''a.mp4'') ?w) =
     Inl (RuntimeError (ustr ''ffmpeg compress failed'')) \<and>
   last (trace (snd (shrink_until_ok (quiet_env 1 0) (in_t ''a.mp4'') ?w))) = ?t"
    by (simp add: run_engine_fails)
  with broken_run 5 6 c show ?thesis by blast
qed

section \<open>The admission gate\<close>

lemma filter_update_count:
  "i < length xs \<Longrightarrow>
   length (filter P (xs[i := y])) + (if P (xs ! i) then 1 else 0) =
   length (filter P xs) + (if P y then 1 else 0)"
proof (induction xs arbitrary: i)
  case Nil
  then show ?case by simp
next
  case (Cons x xs)
  show ?case
  proof (cases i)
    case 0
    then show ?thesis by simp
  next
    case (Suc j)
    with Cons.prems have "j < length xs" by simp
    from Cons.IH [OF this] Suc show ?thesis by simp
  qed
qed

lemma running_update:
  "i < length (jobs s) \<Longrightarrow>
   running (s\<lparr>jobs := (jobs s)[i := p]\<rparr>) + (if is_running (jobs s ! i) then 1 else 0) =
   running s + (if is_running p then 1 else 0)"
  using filter_update_count [of i "jobs s" is_running p] by (simp add: running_def)

lemma running_sem [simp]: "running (s\<lparr>sem := v\<rparr>) = running s"
  by (simp add: running_def)

lemma running_shared [simp]: "running (s\<lparr>shared := w\<rparr>) = running s"
  by (simp add: running_def)

lemma step_Examine:
  assumes "step env s (Examine i) = Some s'"
  shows "sem s' = sem s \<and> running s' = running s"
proof -
  from assms obtain message where i: "i < length (jobs s)" and j: "jobs s ! i = Received message"
    by (auto split: if_splits phase.splits)
  let ?url = "strip (case msg_text message of None \<Rightarrow> [] | Some t \<Rightarrow> t)"
  have u: "running (s\<lparr>jobs := (jobs s)[i := p]\<rparr>) = running s" if "\<not> is_running p" for p
    using running_update [OF i, of p] j that by simp
  show ?thesis
  proof (cases "is_supported_url ?url")
    case True
    with assms i j have "s' = s\<lparr>jobs := (jobs s)[i := Waiting message ?url]\<rparr>"
      by (simp add: Let_def)
    with u [of "Waiting message ?url"] show ?thesis by simp
  next
    case False
    with assms i j obtain r w' where
      "s' = s\<lparr>shared := w', jobs := (jobs s)[i := Finished r]\<rparr>"
      by (auto simp: Let_def split: prod.splits)
    with u [of "Finished r"] show ?thesis by (simp add: running_def)
  qed
qed

lemma step_Enter:
  assumes "step env s (Enter i) = Some s'"
  shows "sem s = sem s' + 1 \<and> running s' = running s + 1"
proof -
  from assms obtain message url where i: "i < length (jobs s)"
    and j: "jobs s ! i = Waiting message url"
    by (auto split: if_splits phase.splits)
  from assms i j have v: "0 < sem s"
    and s': "s' = s\<lparr>sem := sem s - 1, jobs := (jobs s)[i := Running message url]\<rparr>"
    by (auto simp: acquire_def split: if_splits)
  from running_update [OF i, of "Running message url"] j
  have "running (s\<lparr>jobs := (jobs s)[i := Running message url]\<rparr>) = running s + 1" by simp
  with v show ?thesis by (simp add: s' running_def)
qed

lemma step_Leave:
  assumes "i < length (jobs s)" and "jobs s ! i = Running message url"
  shows "step env s (Leave i) =
     Some (s\<lparr>sem := sem s + 1, shared := snd (pipeline env message url (shared s)),
            jobs := (jobs s)[i := Finished (fst (pipeline env message url (shared s)))]\<rparr>)"
  using assms by (simp add: release_def split: prod.splits)

lemma step_Leave_count:
  assumes "step env s (Leave i) = Some s'"
  shows "sem s' = sem s + 1 \<and> running s = running s' + 1"
proof -
  from assms obtain message url where i: "i < length (jobs s)"
    and j: "jobs s ! i = Running message url"
    by (auto split: if_splits phase.splits)
  from assms step_Leave [OF i j, of env] obtain r w' where
    s': "s' = s\<lparr>sem := sem s + 1, shared := w', jobs := (jobs s)[i := Finished r]\<rparr>"
    by simp
  from running_update [OF i, of "Finished r"] j
  have "running (s\<lparr>jobs := (jobs s)[i := Finished r]\<rparr>) + 1 = running s" by simp
  then show ?thesis by (simp add: s' running_def)
qed

lemma step_permits:
  assumes "step env s a = Some s'"
  shows "sem s' + running s' = sem s + running s"
proof (cases a)
  case (Examine i)
  with assms have "step env s (Examine i) = Some s'" by (simp only:)
  from step_Examine [OF this] show ?thesis by simp
next
  case (Enter i)
  with assms have "step env s (Enter i) = Some s'" by (simp only:)
  from step_Enter [OF this] show ?thesis by simp
next
  case (Leave i)
  with assms have "step env s (Leave i) = Some s'" by (simp only:)
  from step_Leave_count [OF this] show ?thesis by simp
qed

lemma run_permits:
  "run env s acts = Some s' \<Longrightarrow> sem s' + running s' = sem s + running s"
proof (induction acts arbitrary: s)
  case Nil
  then show ?case by simp
next
  case (Cons a acts)
  from Cons.prems obtain s1 where 1: "step env s a = Some s1" and 2: "run env s1 acts = Some s'"
    by (auto split: option.splits)
  from Cons.IH [OF 2] step_permits [OF 1] show ?case by simp
qed

lemma running_start: "running (start w msgs) = 0"
  by (simp add: running_def start_def filter_empty_conv)

text \<open>A handler alone: its three steps, taken one after the other, do what \<open>handle_url\<close>
  does.\<close>

lemma handle_url_as_steps:
  "handle_url env message v w =
     (case step env \<lparr>sem = v, shared = w, jobs = [Received message]\<rparr> (Examine 0) of
        None \<Rightarrow> None
      | Some s1 \<Rightarrow>
          (case jobs s1 ! 0 of
             Finished r \<Rightarrow> Some (r, sem s1, shared s1)
           | _ \<Rightarrow>
               (case run env s1 [Enter 0, Leave 0] of
                  None \<Rightarrow> None
                | Some s3 \<Rightarrow>
                    (case jobs s3 ! 0 of
                       Finished r \<Rightarrow> Some (r, sem s3, shared s3)
                     | _ \<Rightarrow> None))))"
proof -
  let ?url = "strip (case msg_text message of None \<Rightarrow> [] | Some t \<Rightarrow> t)"
  show ?thesis
  proof (cases "is_supported_url ?url")
    case False
    then show ?thesis
      by (simp add: handle_url_def Let_def split: prod.splits)
  next
    case True
    show ?thesis
    proof (cases v)
      case 0
      with True show ?thesis by (simp add: handle_url_def Let_def acquire_def)
    next
      case (Suc k)
      with True show ?thesis
        by (simp add: handle_url_def Let_def acquire_def release_def split: prod.splits)
    qed
  qed
qed

text \<open>
  C7: in every state the handlers can reach from the start (semaphore 2, every message
  just received), the counter and the number of handlers inside the block add up to 2,
  so at most 2 are inside; when 2 are inside, no handler can get a permit, so a third
  enters only after a \<open>Leave\<close> step; and a handler inside the block can always leave,
  which adds 1 to the counter whatever the block returned or raised. Likewise
  \<open>handle_url\<close>, whenever it returns or raises, leaves the counter as it found it.
\<close>

theorem C7_admission_gate:
  assumes "run env (start w msgs) acts = Some s"
  shows "CONCURRENCY = 2 \<and> sem s + running s = 2 \<and> running s \<le> 2 \<and>
     (running s = 2 \<longrightarrow> (\<forall>i. step env s (Enter i) = None)) \<and>
     (\<forall>i s'. step env s (Enter i) = Some s' \<longrightarrow> running s < 2 \<and> running s' = running s + 1) \<and>
     (\<forall>i message url. i < length (jobs s) \<longrightarrow> jobs s ! i = Running message url \<longrightarrow>
        step env s (Leave i) =
          Some (s\<lparr>sem := sem s + 1, shared := snd (pipeline env message url (shared s)),
                 jobs := (jobs s)[i := Finished (fst (pipeline env message url (shared s)))]\<rparr>)) \<and>
     (\<forall>message v u r v' u'. handle_url env message v u = Some (r, v', u') \<longrightarrow> v' = v)"
proof -
  have given_back: "v' = v" if "handle_url env message v u = Some (r, v', u')"
    for message v u r v' u'
    using that by (cases rule: handle_url_cases) simp_all
  from run_permits [OF assms] have inv: "sem s + running s = 2"
    by (simp add: running_start) (simp add: start_def CONCURRENCY_def)
  have enter: "running s < 2 \<and> running s' = running s + 1"
    if "step env s (Enter i) = Some s'" for i s'
    using step_Enter [OF that] inv by simp
  have full: "step env s (Enter i) = None" if "running s = 2" for i
  proof (cases "step env s (Enter i)")
    case None
    then show ?thesis .
  next
    case (Some s')
    from enter [OF Some] that show ?thesis by simp
  qed
  have c: "CONCURRENCY = 2" by (simp add: CONCURRENCY_def)
  from inv have le: "running s \<le> 2" by simp
  show ?thesis
    apply (intro conjI)
         apply (rule c)
        apply (rule inv)
       apply (rule le)
      apply (blast intro: full)
     apply (blast dest: enter)
    apply (blast intro: step_Leave)
    apply (blast dest: given_back)
    done
qed

lemma examine_reel:
  assumes "i < length js" and "js ! i = Received reel_message"
  shows "step env \<lparr>sem = v, shared = w, jobs = js\<rparr> (Examine i) =
     Some \<lparr>sem = v, shared = w,
           jobs = js[i := Waiting reel_message (ustr ''instagram.com/p/x'')]\<rparr>"
proof -
  have m: "msg_text reel_message = Some (ustr ''instagram.com/p/x'')"
    by (simp add: reel_message_def)
  from assms show ?thesis by (simp add: m strip_reel supported_reel Let_def)
qed

lemma enter_waiting:
  assumes "i < length js" and "js ! i = Waiting message url"
  shows "step env \<lparr>sem = Suc v, shared = w, jobs = js\<rparr> (Enter i) =
     Some \<lparr>sem = v, shared = w, jobs = js[i := Running message url]\<rparr>"
  using assms by (simp add: acquire_def)

theorem C7_witness:
  "run demo_env (start idle [reel_message, reel_message, reel_message])
       [Examine 0, Examine 1, Examine 2, Enter 0, Enter 1] =
     Some \<lparr>sem = 0, shared = idle,
           jobs = [Running reel_message (ustr ''instagram.com/p/x''),
                   Running reel_message (ustr ''instagram.com/p/x''),
                   Waiting reel_message (ustr ''instagram.com/p/x'')]\<rparr> \<and>
   running \<lparr>sem = 0, shared = idle,
           jobs = [Running reel_message (ustr ''instagram.com/p/x''),
                   Running reel_message (ustr ''instagram.com/p/x''),
                   Waiting reel_message (ustr ''instagram.com/p/x'')]\<rparr> = 2 \<and>
   step demo_env \<lparr>sem = 0, shared = idle,
           jobs = [Running reel_message (ustr ''instagram.com/p/x''),
                   Running reel_message (ustr ''instagram.com/p/x''),
                   Waiting reel_message (ustr ''instagram.com/p/x'')]\<rparr> (Enter 2) = None"
proof -
  let ?s = "\<lparr>sem = 0, shared = idle,
           jobs = [Running reel_message (ustr ''instagram.com/p/x''),
                   Running reel_message (ustr ''instagram.com/p/x''),
                   Waiting reel_message (ustr ''instagram.com/p/x'')]\<rparr>"
  have r: "run demo_env (start idle [reel_message, reel_message, reel_message])
       [Examine 0, Examine 1, Examine 2, Enter 0, Enter 1] = Some ?s"
    by (simp add: start_def CONCURRENCY_def examine_reel enter_waiting numeral_2_eq_2
        del: step.simps)
  have n: "running ?s = 2" by (simp add: running_def)
  from C7_admission_gate [OF r] have "running ?s = 2 \<longrightarrow> (\<forall>i. step demo_env ?s (Enter i) = None)"
    by (elim conjE)
  with n have "step demo_env ?s (Enter 2) = None" by blast
  with r n show ?thesis by blast
qed

end
